theory Spec2Isabelle
  imports Complex_Main "HOL-Library.AList"
begin

section \<open>Strings\<close>

text \<open>
  A JavaScript string is modelled as a \<^typ>\<open>string\<close> whose characters are the code units
  U+0000 to U+00FF. On this range \<open>String.prototype.toLowerCase\<close> maps \<open>A\<close>-\<open>Z\<close> and the
  capital letters U+00C0 to U+00DE (without the multiplication sign U+00D7) to the letter
  32 positions later (these code units have bit 5 clear, so adding 32 sets that bit) and
  leaves every other code unit alone; \<open>trim\<close> removes the white
  space and line terminator code units TAB, LF, VT, FF, CR, SPACE and NBSP from both ends.
\<close>

definition add32 :: "char \<Rightarrow> char" where
  "add32 c = (case c of Char b0 b1 b2 b3 b4 b5 b6 b7 \<Rightarrow> Char b0 b1 b2 b3 b4 True b6 b7)"

definition toLowerCase_char :: "char \<Rightarrow> char" where
  "toLowerCase_char c =
     (let n = (of_char c :: nat)
      in if (65 \<le> n \<and> n \<le> 90) \<or> (192 \<le> n \<and> n \<le> 222 \<and> n \<noteq> 215)
         then add32 c else c)"

definition toLowerCase :: "string \<Rightarrow> string" where
  "toLowerCase s = map toLowerCase_char s"

definition isWhiteSpace :: "char \<Rightarrow> bool" where
  "isWhiteSpace c = ((of_char c :: nat) \<in> {9, 10, 11, 12, 13, 32, 160})"

definition trim :: "string \<Rightarrow> string" where
  "trim s = rev (dropWhile isWhiteSpace (rev (dropWhile isWhiteSpace s)))"

text \<open>\<open>s.startsWith(q)\<close> and \<open>s.includes(q)\<close>: \<open>q\<close> occurs in \<open>s\<close> as a contiguous block.\<close>

fun startsWith :: "string \<Rightarrow> string \<Rightarrow> bool" where
  "startsWith s [] = True"
| "startsWith [] (c # q) = False"
| "startsWith (d # s) (c # q) = (d = c \<and> startsWith s q)"

fun String_includes :: "string \<Rightarrow> string \<Rightarrow> bool" where
  "String_includes [] q = (q = [])"
| "String_includes (d # s) q = (startsWith (d # s) q \<or> String_includes s q)"

section \<open>Data model\<close>

text \<open>
  A post of \<open>posts.json\<close>. The text fields are strings, as \<open>filterPosts\<close> and
  \<open>findDuplicates\<close> take them to be when they call \<open>toLowerCase\<close> on them, and the
  counts are integers.
\<close>

record post =
  post_id :: string
  title :: string
  content :: string
  content_len :: int
  author_id :: string
  author_name :: string
  submolt_name :: string
  submolt_display_name :: string
  upvotes :: int
  downvotes :: int
  comment_count :: int
  created_at :: string
  is_empty_title :: bool

text \<open>
  The rows of \<open>post_tags.json\<close>, \<open>post_class_notes.json\<close> and \<open>post_embeddings.json\<close>
  carry a \<open>post_id\<close> field of their own; the field names are prefixed here to keep them
  apart from \<^const>\<open>post_id\<close> of a post. Coordinates are JavaScript numbers, modelled as
  real numbers with exact arithmetic.
\<close>

record post_tag =
  tag_post_id :: string
  tag :: string
  tag_namespace :: string

record post_class_note =
  note_post_id :: string
  class_note :: string

record embedding =
  emb_post_id :: string
  emb_x :: real
  emb_y :: real

record engagement_filter =
  minUpvotes :: int
  minComments :: int

text \<open>
  The filter object of \<open>StateService\<close>, with the fields \<open>filterPosts\<close> reads. \<open>postIds\<close> is
  \<open>null\<close> (\<^const>\<open>None\<close>) or an array.
\<close>

record filters =
  submolts :: "string list"
  authors :: "string list"
  tags :: "string list"
  classNotes :: "string list"
  engagement :: engagement_filter
  search :: string
  postIds :: "string list option"

section \<open>JavaScript Map and Array operations\<close>

text \<open>
  A \<open>Map\<close> is an association list in insertion order with distinct keys: \<open>get\<close> is
  \<^const>\<open>map_of\<close>, and \<open>set\<close> is \<^const>\<open>AList.update\<close>, which overwrites the value of a
  key in place and appends a new key at the end. \<open>entries()\<close> is the list itself.
\<close>

type_synonym ('k, 'v) js_map = "('k \<times> 'v) list"

definition Map_of_entries :: "('k \<times> 'v) list \<Rightarrow> ('k, 'v) js_map" where
  "Map_of_entries es = fold (\<lambda>(k, v) m. AList.update k v m) es []"

text \<open>\<open>arr = m.get(k) || []; arr.push(v); m.set(k, arr)\<close>\<close>

definition get_or_empty :: "('k, 'v list) js_map \<Rightarrow> 'k \<Rightarrow> 'v list" where
  "get_or_empty m k = (case map_of m k of None \<Rightarrow> [] | Some arr \<Rightarrow> arr)"

definition push_group :: "'k \<Rightarrow> 'v \<Rightarrow> ('k, 'v list) js_map \<Rightarrow> ('k, 'v list) js_map" where
  "push_group k v m = AList.update k (get_or_empty m k @ [v]) m"

text \<open>\<open>m.set(k, (m.get(k) || 0) + n)\<close>\<close>

definition add_count :: "'k \<Rightarrow> nat \<Rightarrow> ('k, nat) js_map \<Rightarrow> ('k, nat) js_map" where
  "add_count k n m = AList.update k ((case map_of m k of None \<Rightarrow> 0 | Some c \<Rightarrow> c) + n) m"

text \<open>
  \<open>Array.prototype.sort(cmp)\<close> is a stable sort: \<open>a\<close> stays before \<open>b\<close> unless
  \<open>cmp(a, b) > 0\<close>. For a comparator that orders the elements consistently every stable sort
  returns the same array; it is computed here by stable insertion from the right.
\<close>

fun insert_by :: "('a \<Rightarrow> 'a \<Rightarrow> 'n::{zero, linorder}) \<Rightarrow> 'a \<Rightarrow> 'a list \<Rightarrow> 'a list" where
  "insert_by cmp a [] = [a]"
| "insert_by cmp a (b # bs) = (if cmp a b \<le> 0 then a # b # bs else b # insert_by cmp a bs)"

definition Array_sort :: "('a \<Rightarrow> 'a \<Rightarrow> 'n::{zero, linorder}) \<Rightarrow> 'a list \<Rightarrow> 'a list" where
  "Array_sort cmp as = foldr (insert_by cmp) as []"

section \<open>DataService\<close>

record DataService =
  posts :: "post list"
  postTags :: "post_tag list"
  postClassNotes :: "post_class_note list"
  postEmbeddings :: "embedding list"
  postById :: "(string, post) js_map"
  tagsByPostId :: "(string, post_tag list) js_map"
  classNotesByPostId :: "(string, post_class_note list) js_map"
  embeddingByPostId :: "(string, embedding) js_map"
  postsBySubmolt :: "(string, post list) js_map"
  postsByAuthor :: "(string, post list) js_map"

definition buildIndexes :: "DataService \<Rightarrow> DataService" where
  "buildIndexes ds = ds\<lparr>
     postById := Map_of_entries (map (\<lambda>p. (post_id p, p)) (posts ds)),
     tagsByPostId := fold (\<lambda>t. push_group (tag_post_id t) t) (postTags ds) [],
     classNotesByPostId := fold (\<lambda>n. push_group (note_post_id n) n) (postClassNotes ds) [],
     embeddingByPostId := Map_of_entries (map (\<lambda>e. (emb_post_id e, e)) (postEmbeddings ds)),
     postsBySubmolt := fold (\<lambda>p. push_group (submolt_name p) p) (posts ds) [],
     postsByAuthor := fold (\<lambda>p. push_group (author_name p) p) (posts ds) []\<rparr>"

text \<open>The state after \<open>loadAll\<close>: the loaded record sequences, indexed.\<close>

definition loadAll ::
  "post list \<Rightarrow> post_tag list \<Rightarrow> post_class_note list \<Rightarrow> embedding list \<Rightarrow> DataService" where
  "loadAll ps ts ns es = buildIndexes
     \<lparr>posts = ps, postTags = ts, postClassNotes = ns, postEmbeddings = es, postById = [],
      tagsByPostId = [], classNotesByPostId = [], embeddingByPostId = [],
      postsBySubmolt = [], postsByAuthor = []\<rparr>"

subsection \<open>filterPosts\<close>

definition search_match :: "string \<Rightarrow> post \<Rightarrow> bool" where
  "search_match q p =
     (String_includes (toLowerCase (title p)) q \<or> String_includes (toLowerCase (content p)) q
      \<or> String_includes (toLowerCase (author_name p)) q)"

definition filterPosts :: "DataService \<Rightarrow> filters \<Rightarrow> post list" where
  "filterPosts ds f =
    (let result = posts ds;
         result = (if length (submolts f) > 0
                   then filter (\<lambda>p. submolt_name p \<in> set (submolts f)) result else result);
         result = (if length (authors f) > 0
                   then filter (\<lambda>p. author_name p \<in> set (authors f)) result else result);
         result = (if length (tags f) > 0
                   then filter (\<lambda>p. list_ex (\<lambda>t. tag t \<in> set (tags f))
                                      (get_or_empty (tagsByPostId ds) (post_id p))) result
                   else result);
         result = (if length (classNotes f) > 0
                   then filter (\<lambda>p. list_ex (\<lambda>n. class_note n \<in> set (classNotes f))
                                      (get_or_empty (classNotesByPostId ds) (post_id p))) result
                   else result);
         result = (if minUpvotes (engagement f) > 0
                   then filter (\<lambda>p. upvotes p \<ge> minUpvotes (engagement f)) result else result);
         result = (if minComments (engagement f) > 0
                   then filter (\<lambda>p. comment_count p \<ge> minComments (engagement f)) result
                   else result);
         result = (if search f \<noteq> []
                   then filter (search_match (toLowerCase (search f))) result else result);
         result = (case postIds f of
                     None \<Rightarrow> result
                   | Some ids \<Rightarrow> if length ids > 0
                                then filter (\<lambda>p. post_id p \<in> set ids) result else result)
     in result)"

text \<open>
  The filter specification read as a conjunction of optional predicates on one post, over
  the raw tag and class note rows.
\<close>

definition satisfies :: "post_tag list \<Rightarrow> post_class_note list \<Rightarrow> filters \<Rightarrow> post \<Rightarrow> bool" where
  "satisfies ts ns f p =
    ((submolts f = [] \<or> submolt_name p \<in> set (submolts f)) \<and>
     (authors f = [] \<or> author_name p \<in> set (authors f)) \<and>
     (tags f = [] \<or> (\<exists>t \<in> set ts. tag_post_id t = post_id p \<and> tag t \<in> set (tags f))) \<and>
     (classNotes f = [] \<or>
        (\<exists>n \<in> set ns. note_post_id n = post_id p \<and> class_note n \<in> set (classNotes f))) \<and>
     (minUpvotes (engagement f) \<le> 0 \<or> upvotes p \<ge> minUpvotes (engagement f)) \<and>
     (minComments (engagement f) \<le> 0 \<or> comment_count p \<ge> minComments (engagement f)) \<and>
     (search f = [] \<or> search_match (toLowerCase (search f)) p) \<and>
     (postIds f = None \<or> postIds f = Some [] \<or> post_id p \<in> set (the (postIds f))))"

text \<open>The same conjunction over the index of a \<^typ>\<open>DataService\<close>.\<close>

definition index_satisfies :: "DataService \<Rightarrow> filters \<Rightarrow> post \<Rightarrow> bool" where
  "index_satisfies ds f p =
    ((submolts f = [] \<or> submolt_name p \<in> set (submolts f)) \<and>
     (authors f = [] \<or> author_name p \<in> set (authors f)) \<and>
     (tags f = [] \<or> list_ex (\<lambda>t. tag t \<in> set (tags f))
                       (get_or_empty (tagsByPostId ds) (post_id p))) \<and>
     (classNotes f = [] \<or> list_ex (\<lambda>n. class_note n \<in> set (classNotes f))
                       (get_or_empty (classNotesByPostId ds) (post_id p))) \<and>
     (minUpvotes (engagement f) \<le> 0 \<or> upvotes p \<ge> minUpvotes (engagement f)) \<and>
     (minComments (engagement f) \<le> 0 \<or> comment_count p \<ge> minComments (engagement f)) \<and>
     (search f = [] \<or> search_match (toLowerCase (search f)) p) \<and>
     (postIds f = None \<or> postIds f = Some [] \<or> post_id p \<in> set (the (postIds f))))"

definition no_filters :: filters where
  "no_filters = \<lparr>submolts = [], authors = [], tags = [], classNotes = [],
     engagement = \<lparr>minUpvotes = 0, minComments = 0\<rparr>, search = [], postIds = None\<rparr>"

definition mk_post :: "string \<Rightarrow> string \<Rightarrow> string \<Rightarrow> int \<Rightarrow> int \<Rightarrow> post" where
  "mk_post i a s u c =
     \<lparr>post_id = i, title = i, content = [], content_len = 0, author_id = a, author_name = a,
      submolt_name = s, submolt_display_name = s, upvotes = u, downvotes = 0,
      comment_count = c, created_at = [], is_empty_title = False\<rparr>"

definition example_posts :: "post list" where
  "example_posts =
     [mk_post ''A'' ''A'' ''m1'' 5 5, mk_post ''B'' ''B'' ''m1'' 12 8,
      mk_post ''C'' ''C'' ''m1'' 20 3, mk_post ''D'' ''D'' ''m1'' 3 0]"

subsection \<open>getTopItems\<close>

text \<open>
  \<open>field\<close> and \<open>displayField\<close> name string fields of a post (\<open>author_name\<close>,
  \<open>submolt_name\<close>, \<open>submolt_display_name\<close>) and are given as the accessors;
  \<open>displayField\<close> is \<open>null\<close> by default. \<open>limit\<close> is a count, so \<open>slice(0, limit)\<close> is
  \<^const>\<open>take\<close>. \<open>displays.get(name) || name\<close> falls back to the name when no display
  value is stored or the stored one is the empty string.
\<close>

record top_item =
  item_name :: string
  item_count :: nat
  displayName :: string

definition getTopItems ::
  "post list \<Rightarrow> (post \<Rightarrow> string) \<Rightarrow> nat \<Rightarrow> (post \<Rightarrow> string) option \<Rightarrow> top_item list" where
  "getTopItems ps field limit displayField =
    (let counts = fold (\<lambda>p. add_count (field p) 1) ps [];
         displays = (case displayField of
                       None \<Rightarrow> []
                     | Some d \<Rightarrow> fold (\<lambda>p. AList.update (field p) (d p)) ps [])
     in take limit
          (Array_sort (\<lambda>a b. int (item_count b) - int (item_count a))
             (map (\<lambda>(name, count).
                     \<lparr>item_name = name, item_count = count,
                      displayName = (case map_of displays name of
                                       None \<Rightarrow> name
                                     | Some d \<Rightarrow> if d = [] then name else d)\<rparr>)
                  counts)))"

text \<open>
  The ranking in the words of the specification: the distinct keys in the order in which
  they are first met, each with the number of its occurrences, stably sorted by
  descending count.
\<close>

fun first_seen :: "'a list \<Rightarrow> 'a list" where
  "first_seen [] = []"
| "first_seen (x # xs) = x # filter (\<lambda>y. y \<noteq> x) (first_seen xs)"

definition ranked_counts :: "'a list \<Rightarrow> ('a \<times> nat) list" where
  "ranked_counts ks =
     sort_key (\<lambda>kc. - int (snd kc)) (map (\<lambda>k. (k, count_list ks k)) (first_seen ks))"

subsection \<open>findDuplicates\<close>

record duplicate_group =
  dup_title :: string
  dup_count :: nat
  dup_posts :: "post list"

definition findDuplicates :: "post list \<Rightarrow> duplicate_group list" where
  "findDuplicates ps =
    (let groups = fold (\<lambda>p m. let key = trim (toLowerCase (title p))
                               in if length key < 10 then m else push_group key p m) ps []
     in take 20
          (Array_sort (\<lambda>a b. int (dup_count b) - int (dup_count a))
             (map (\<lambda>(t, arr). \<lparr>dup_title = t, dup_count = length arr, dup_posts = arr\<rparr>)
                (filter (\<lambda>(t, arr). length arr > 1) groups))))"

text \<open>
  The groups in the words of the specification: posts grouped by normalized title, in the
  order in which the titles are first met, without the keys shorter than 10 characters and
  without the groups of one post.
\<close>

definition normalized_title :: "post \<Rightarrow> string" where
  "normalized_title p = trim (toLowerCase (title p))"

definition duplicate_groups :: "post list \<Rightarrow> duplicate_group list" where
  "duplicate_groups ps =
     map (\<lambda>k. \<lparr>dup_title = k,
               dup_count = length (filter (\<lambda>p. normalized_title p = k) ps),
               dup_posts = filter (\<lambda>p. normalized_title p = k) ps\<rparr>)
       (filter (\<lambda>k. 10 \<le> length k \<and> 1 < count_list (map normalized_title ps) k)
          (first_seen (map normalized_title ps)))"

definition duplicate_posts :: "post list" where
  "duplicate_posts =
     [(mk_post ''1'' ''A'' ''m1'' 5 5)\<lparr>title := ''Hello World!''\<rparr>,
      (mk_post ''2'' ''B'' ''m1'' 1 0)\<lparr>title := ''gm''\<rparr>,
      (mk_post ''3'' ''C'' ''m1'' 2 0)\<lparr>title := ''  HELLO world! ''\<rparr>,
      (mk_post ''4'' ''D'' ''m1'' 0 0)\<lparr>title := ''GM''\<rparr>,
      (mk_post ''5'' ''E'' ''m1'' 0 0)\<lparr>title := ''A unique title''\<rparr>]"

subsection \<open>getHistogram\<close>






subsection \<open>Rectangle selection\<close>

text \<open>
  The rows of \<open>submolt_umap.json\<close>, the points of the community projection.
\<close>

record submolt_point =
  umap_submolt_name :: string
  umap_x :: real
  umap_y :: real

text \<open>
  The \<open>mouseup\<close> handlers of \<open>renderEmbeddings\<close> and \<open>renderSpaces\<close> have the same body up
  to the point collection and its id field. \<open>selStart\<close> is the corner stored by
  \<open>mousedown\<close> (\<^const>\<open>None\<close> when no drag is under way) and \<open>m\<close> the pointer position at
  \<open>mouseup\<close>, both in the coordinates of the drawing; \<open>xScale\<close> and \<open>yScale\<close> are the
  \<open>d3.scaleLinear\<close> scales that place a point in the drawing. The result is the id list
  handed to \<open>StateService\<close> (\<open>setPostIds\<close>, or \<open>setFilters\<close> with \<open>submolts\<close>), or
  \<^const>\<open>None\<close> when the handler selects nothing.
\<close>

definition mouseup_select ::
  "('p \<Rightarrow> string) \<Rightarrow> ('p \<Rightarrow> real) \<Rightarrow> ('p \<Rightarrow> real) \<Rightarrow> (real \<Rightarrow> real) \<Rightarrow> (real \<Rightarrow> real) \<Rightarrow>
   (real \<times> real) option \<Rightarrow> real \<times> real \<Rightarrow> 'p list \<Rightarrow> string list option" where
  "mouseup_select ident getx gety xScale yScale selStart m pts =
    (case selStart of
       None \<Rightarrow> None
     | Some start \<Rightarrow>
        (let x0 = min (fst start) (fst m); y0 = min (snd start) (snd m);
             x1 = max (fst start) (fst m); y1 = max (snd start) (snd m)
         in if x1 - x0 > 5 \<and> y1 - y0 > 5
            then (let selected =
                        map ident
                          (filter (\<lambda>d. let px = xScale (getx d); py = yScale (gety d)
                                        in px \<ge> x0 \<and> px \<le> x1 \<and> py \<ge> y0 \<and> py \<le> y1) pts)
                  in if length selected > 0 then Some selected else None)
            else None))"

definition renderEmbeddings_mouseup ::
  "(real \<Rightarrow> real) \<Rightarrow> (real \<Rightarrow> real) \<Rightarrow> (real \<times> real) option \<Rightarrow> real \<times> real \<Rightarrow>
   embedding list \<Rightarrow> string list option" where
  "renderEmbeddings_mouseup = mouseup_select emb_post_id emb_x emb_y"

definition renderSpaces_mouseup ::
  "(real \<Rightarrow> real) \<Rightarrow> (real \<Rightarrow> real) \<Rightarrow> (real \<times> real) option \<Rightarrow> real \<times> real \<Rightarrow>
   submolt_point list \<Rightarrow> string list option" where
  "renderSpaces_mouseup = mouseup_select umap_submolt_name umap_x umap_y"

text \<open>
  The selection for a rectangle given in data space by two opposite corners: the caller
  drags from the drawn position of one corner to the drawn position of the other, and no
  selection is the empty set of ids.
\<close>

definition pointsInRect ::
  "('p \<Rightarrow> string) \<Rightarrow> ('p \<Rightarrow> real) \<Rightarrow> ('p \<Rightarrow> real) \<Rightarrow> (real \<Rightarrow> real) \<Rightarrow> (real \<Rightarrow> real) \<Rightarrow>
   real \<times> real \<Rightarrow> real \<times> real \<Rightarrow> 'p list \<Rightarrow> string list" where
  "pointsInRect ident getx gety xScale yScale c c' pts =
    (case mouseup_select ident getx gety xScale yScale
            (Some (xScale (fst c), yScale (snd c))) (xScale (fst c'), yScale (snd c')) pts of
       None \<Rightarrow> []
     | Some ids \<Rightarrow> ids)"

definition in_rect :: "real \<times> real \<Rightarrow> real \<times> real \<Rightarrow> real \<Rightarrow> real \<Rightarrow> bool" where
  "in_rect c c' x y =
     (min (fst c) (fst c') \<le> x \<and> x \<le> max (fst c) (fst c') \<and>
      min (snd c) (snd c') \<le> y \<and> y \<le> max (snd c) (snd c'))"

text \<open>
  A scale is strictly monotone, rising as the horizontal scale of the drawings does or
  falling as the vertical one.
\<close>

definition monotone_scale :: "(real \<Rightarrow> real) \<Rightarrow> bool" where
  "monotone_scale f = (strict_mono f \<or> strict_mono (\<lambda>x. - f x))"

text \<open>
  An example drawing of 180 by 180 units with one embedded post at the origin: the scales
  of \<open>renderEmbeddings\<close> map the domain \<open>[-5, 5]\<close> to the ranges \<open>[40, 140]\<close> and
  \<open>[140, 40]\<close>.
\<close>

definition example_xScale :: "real \<Rightarrow> real" where
  "example_xScale x = 40 + 10 * (x + 5)"

definition example_yScale :: "real \<Rightarrow> real" where
  "example_yScale y = 140 - 10 * (y + 5)"

definition origin_embedding :: embedding where
  "origin_embedding = \<lparr>emb_post_id = ''P1'', emb_x = 0, emb_y = 0\<rparr>"

subsection \<open>findSimilarPosts\<close>





subsection \<open>renderTagNetwork\<close>

text \<open>
  The rows of \<open>tag_edges.json\<close>; the weight is a co-occurrence count.
\<close>

record tag_edge =
  tag_a :: string
  tag_b :: string
  weight :: nat

text \<open>
  The normalized weight is the one place where the code divides by a number that can be
  zero, so its value is a JavaScript number with the two special values kept apart:
  \<open>0 / 0\<close> is \<open>NaN\<close>, \<open>w / 0\<close> for \<open>w > 0\<close> is \<open>Infinity\<close>, \<open>Math.max\<close> of a missing map
  entry is \<open>NaN\<close>, and a comparison with \<open>NaN\<close> is false.
\<close>

datatype js_number = Num real | PosInfinity | NaN

definition js_divide :: "nat \<Rightarrow> nat \<Rightarrow> js_number" where
  "js_divide w m = (if m = 0 then (if w = 0 then NaN else PosInfinity) else Num (real w / real m))"

fun js_times :: "js_number \<Rightarrow> real \<Rightarrow> js_number" where
  "js_times (Num x) c = Num (x * c)"
| "js_times PosInfinity c = (if c > 0 then PosInfinity else NaN)"
| "js_times NaN c = NaN"

fun js_ge :: "js_number \<Rightarrow> real \<Rightarrow> bool" where
  "js_ge (Num x) t = (x \<ge> t)"
| "js_ge PosInfinity t = True"
| "js_ge NaN t = False"

text \<open>\<open>s.split(c)\<close> for a separator of one character; the result is never empty.\<close>

fun String_split :: "char \<Rightarrow> string \<Rightarrow> string list" where
  "String_split c [] = [] # []"
| "String_split c (x # xs) =
     (if x = c then [] # String_split c xs
      else (case String_split c xs of [] \<Rightarrow> [x] # [] | w # ws \<Rightarrow> (x # w) # ws))"

text \<open>\<open>Set.prototype.add\<close> on a set kept in insertion order.\<close>

definition Set_add :: "'a \<Rightarrow> 'a list \<Rightarrow> 'a list" where
  "Set_add x s = (if x \<in> set s then s else s @ [x])"

record graph_node =
  node_id :: string
  node_label :: string
  node_group :: string
  node_size :: real

record graph_link =
  link_source :: string
  link_target :: string
  link_weight :: js_number

text \<open>
  What \<open>renderTagNetwork\<close> shows: one of its two messages, or the force graph drawn from
  the nodes and links it hands to \<open>renderForceGraph\<close>.
\<close>

datatype network_view =
  No_edges | No_edges_above_threshold | Force_graph "graph_node list" "graph_link list"

definition nodeWeights :: "tag_edge list \<Rightarrow> (string, nat) js_map" where
  "nodeWeights allEdges =
     fold (\<lambda>e m. add_count (tag_b e) (weight e) (add_count (tag_a e) (weight e) m)) allEdges []"

definition normalizedWeight :: "(string, nat) js_map \<Rightarrow> tag_edge \<Rightarrow> js_number" where
  "normalizedWeight nw e =
     (case (map_of nw (tag_a e), map_of nw (tag_b e)) of
        (Some wa, Some wb) \<Rightarrow> js_times (js_divide (weight e) (max wa wb)) 100
      | _ \<Rightarrow> NaN)"

definition normalizedEdges :: "tag_edge list \<Rightarrow> (tag_edge \<times> js_number) list" where
  "normalizedEdges allEdges =
     map (\<lambda>e. (e, normalizedWeight (nodeWeights allEdges) e)) allEdges"

text \<open>
  \<open>edgeThresholdPercent\<close> is the module variable set from the threshold slider. The
  variable \<open>maxNodeWeight\<close> of the source is computed and never read.
\<close>

definition renderTagNetwork :: "tag_edge list \<Rightarrow> real \<Rightarrow> network_view" where
  "renderTagNetwork allEdges edgeThresholdPercent =
    (if length allEdges = 0 then No_edges
     else
      (let nw = nodeWeights allEdges;
           edges = filter (\<lambda>(e, n). js_ge n edgeThresholdPercent) (normalizedEdges allEdges)
       in if length edges = 0 then No_edges_above_threshold
          else
           (let nodeSet = fold (\<lambda>(e, n) s. Set_add (tag_b e) (Set_add (tag_a e) s)) edges [];
                nodes = map (\<lambda>i. \<lparr>node_id = i,
                                   node_label = last (String_split CHR '':'' i),
                                   node_group = (if String_includes i '':''
                                                 then hd (String_split CHR '':'' i) else ''other''),
                                   node_size = sqrt (real (case map_of nw i of
                                                             None \<Rightarrow> 1
                                                           | Some w \<Rightarrow> if w = 0 then 1 else w))
                                               * 0.5 + 4\<rparr>) nodeSet;
                links = map (\<lambda>(e, n). \<lparr>link_source = tag_a e, link_target = tag_b e,
                                        link_weight = n\<rparr>) edges
            in Force_graph nodes links)))"

text \<open>
  The node weight in the words of the specification, the sum of the weights of the edges
  that touch a tag, and the weight the loop adds up, which counts an edge once for each
  end at the tag.
\<close>

definition touching_weight :: "tag_edge list \<Rightarrow> string \<Rightarrow> nat" where
  "touching_weight es t = sum_list (map weight (filter (\<lambda>e. tag_a e = t \<or> tag_b e = t) es))"

definition incident_weight :: "tag_edge list \<Rightarrow> string \<Rightarrow> nat" where
  "incident_weight es t =
     sum_list (map (\<lambda>e. (if tag_a e = t then weight e else 0) + (if tag_b e = t then weight e else 0)) es)"

text \<open>The edges whose normalized weight reaches the threshold, in the order of the list.\<close>

definition kept_edges :: "tag_edge list \<Rightarrow> real \<Rightarrow> tag_edge list" where
  "kept_edges es t = filter (\<lambda>e. js_ge (normalizedWeight (nodeWeights es) e) t) es"

definition heavier_end :: "tag_edge list \<Rightarrow> tag_edge \<Rightarrow> nat" where
  "heavier_end es e = max (incident_weight es (tag_a e)) (incident_weight es (tag_b e))"

definition view_links :: "network_view \<Rightarrow> graph_link list" where
  "view_links v = (case v of Force_graph nodes links \<Rightarrow> links | _ \<Rightarrow> [])"

definition view_nodes :: "network_view \<Rightarrow> graph_node list" where
  "view_nodes v = (case v of Force_graph nodes links \<Rightarrow> nodes | _ \<Rightarrow> [])"

definition example_edges :: "tag_edge list" where
  "example_edges =
     [\<lparr>tag_a = ''style:dry'', tag_b = ''intent:ask'', weight = 3\<rparr>,
      \<lparr>tag_a = ''style:dry'', tag_b = ''emotion:joy'', weight = 1\<rparr>,
      \<lparr>tag_a = ''meta'', tag_b = ''emotion:joy'', weight = 0\<rparr>]"

text \<open>A normalized weight is a percentage in the half-open interval \<open>(0, 100]\<close>.\<close>

fun in_percent_range :: "js_number \<Rightarrow> bool" where
  "in_percent_range (Num x) = (0 < x \<and> x \<le> 100)"
| "in_percent_range PosInfinity = False"
| "in_percent_range NaN = False"

subsection \<open>sortPosts and findOutliers\<close>

text \<open>
  \<open>field\<close> is \<open>'created_at'\<close> or the name of a numeric field, given as its accessor. The
  result of \<open>String.prototype.localeCompare\<close> depends on the collation of the host and is
  a parameter.
\<close>

datatype sort_field = Created_at | Numeric "post \<Rightarrow> int"

definition sortPosts_cmp :: "(string \<Rightarrow> string \<Rightarrow> int) \<Rightarrow> sort_field \<Rightarrow> bool \<Rightarrow> post \<Rightarrow> post \<Rightarrow> int" where
  "sortPosts_cmp localeCompare field asc a b =
     (let cmp = (case field of
                   Created_at \<Rightarrow> localeCompare (created_at a) (created_at b)
                 | Numeric f \<Rightarrow> f a - f b)
      in if asc then cmp else - cmp)"

definition sortPosts ::
  "(string \<Rightarrow> string \<Rightarrow> int) \<Rightarrow> post list \<Rightarrow> sort_field \<Rightarrow> bool \<Rightarrow> post list" where
  "sortPosts localeCompare ps field asc = Array_sort (sortPosts_cmp localeCompare field asc) ps"

record outlier =
  outlier_type :: string
  outlier_post :: post
  outlier_value :: int

definition findOutliers :: "post list \<Rightarrow> outlier list" where
  "findOutliers ps =
    (let byUp = Array_sort (\<lambda>a b. upvotes b - upvotes a) ps;
         out = map (\<lambda>p. \<lparr>outlier_type = ''High Upvotes'', outlier_post = p,
                          outlier_value = upvotes p\<rparr>)
                 (filter (\<lambda>p. upvotes p > 10) (take 10 byUp));
         byLen = Array_sort (\<lambda>a b. content_len b - content_len a) ps
     in out @ map (\<lambda>p. \<lparr>outlier_type = ''Long Content'', outlier_post = p,
                         outlier_value = content_len p\<rparr>)
                (filter (\<lambda>p. content_len p > 5000) (take 5 byLen)))"

section \<open>Arrays as objects\<close>

text \<open>
  Whether a query changes the corpus depends on which array object it sorts or returns,
  so for these questions the post arrays live in a store: \<open>arrays\<close> maps the address of an
  array object to its content, and \<open>next_addr\<close> is the first address not yet in use.
  \<open>[...a]\<close>, \<open>a.filter(P)\<close> and \<open>a.slice(0, n)\<close> allocate a new array; \<open>a.sort(cmp)\<close>
  overwrites the content of \<open>a\<close>. The posts themselves are never assigned to.
\<close>

record heap =
  arrays :: "nat \<Rightarrow> post list option"
  next_addr :: nat

definition read_array :: "heap \<Rightarrow> nat \<Rightarrow> post list" where
  "read_array h a = (case arrays h a of None \<Rightarrow> [] | Some xs \<Rightarrow> xs)"

definition alloc :: "heap \<Rightarrow> post list \<Rightarrow> nat \<times> heap" where
  "alloc h xs = (next_addr h, h\<lparr>arrays := (arrays h)(next_addr h \<mapsto> xs),
                                next_addr := Suc (next_addr h)\<rparr>)"

definition Array_spread :: "nat \<times> heap \<Rightarrow> nat \<times> heap" where
  "Array_spread ah = alloc (snd ah) (read_array (snd ah) (fst ah))"

definition Array_filter :: "(post \<Rightarrow> bool) \<Rightarrow> nat \<times> heap \<Rightarrow> nat \<times> heap" where
  "Array_filter P ah = alloc (snd ah) (filter P (read_array (snd ah) (fst ah)))"

definition Array_slice0 :: "nat \<Rightarrow> nat \<times> heap \<Rightarrow> nat \<times> heap" where
  "Array_slice0 n ah = alloc (snd ah) (take n (read_array (snd ah) (fst ah)))"

definition Array_sort_in_place :: "(post \<Rightarrow> post \<Rightarrow> int) \<Rightarrow> nat \<times> heap \<Rightarrow> nat \<times> heap" where
  "Array_sort_in_place cmp ah =
     (fst ah, (snd ah)\<lparr>arrays := (arrays (snd ah))
                          (fst ah \<mapsto> Array_sort cmp (read_array (snd ah) (fst ah)))\<rparr>)"

text \<open>
  The three queries on the store. Each takes the store and the address of its input array
  and returns its result with the new store. \<open>filterPosts\<close> reads \<open>this.posts\<close>, here the
  address \<open>posts_ref\<close>, and the tag and class note indexes of the \<^typ>\<open>DataService\<close>.
\<close>

definition sortPosts_heap ::
  "(string \<Rightarrow> string \<Rightarrow> int) \<Rightarrow> heap \<Rightarrow> nat \<Rightarrow> sort_field \<Rightarrow> bool \<Rightarrow> nat \<times> heap" where
  "sortPosts_heap localeCompare h ps field asc =
    (let sorted = Array_spread (ps, h);
         sorted = Array_sort_in_place (sortPosts_cmp localeCompare field asc) sorted
     in sorted)"

definition findOutliers_heap :: "heap \<Rightarrow> nat \<Rightarrow> outlier list \<times> heap" where
  "findOutliers_heap h ps =
    (let byUp = Array_sort_in_place (\<lambda>a b. upvotes b - upvotes a) (Array_spread (ps, h));
         top = Array_slice0 10 byUp;
         out = map (\<lambda>p. \<lparr>outlier_type = ''High Upvotes'', outlier_post = p,
                          outlier_value = upvotes p\<rparr>)
                 (filter (\<lambda>p. upvotes p > 10) (read_array (snd top) (fst top)));
         byLen = Array_sort_in_place (\<lambda>a b. content_len b - content_len a)
                   (Array_spread (ps, snd top));
         top = Array_slice0 5 byLen;
         out = out @ map (\<lambda>p. \<lparr>outlier_type = ''Long Content'', outlier_post = p,
                                outlier_value = content_len p\<rparr>)
                       (filter (\<lambda>p. content_len p > 5000) (read_array (snd top) (fst top)))
     in (out, snd top))"

definition filterPosts_heap :: "heap \<Rightarrow> nat \<Rightarrow> DataService \<Rightarrow> filters \<Rightarrow> nat \<times> heap" where
  "filterPosts_heap h posts_ref ds f =
    (let result = (posts_ref, h);
         result = (if length (submolts f) > 0
                   then Array_filter (\<lambda>p. submolt_name p \<in> set (submolts f)) result else result);
         result = (if length (authors f) > 0
                   then Array_filter (\<lambda>p. author_name p \<in> set (authors f)) result else result);
         result = (if length (tags f) > 0
                   then Array_filter (\<lambda>p. list_ex (\<lambda>t. tag t \<in> set (tags f))
                                      (get_or_empty (tagsByPostId ds) (post_id p))) result
                   else result);
         result = (if length (classNotes f) > 0
                   then Array_filter (\<lambda>p. list_ex (\<lambda>n. class_note n \<in> set (classNotes f))
                                      (get_or_empty (classNotesByPostId ds) (post_id p))) result
                   else result);
         result = (if minUpvotes (engagement f) > 0
                   then Array_filter (\<lambda>p. upvotes p \<ge> minUpvotes (engagement f)) result
                   else result);
         result = (if minComments (engagement f) > 0
                   then Array_filter (\<lambda>p. comment_count p \<ge> minComments (engagement f)) result
                   else result);
         result = (if search f \<noteq> []
                   then Array_filter (search_match (toLowerCase (search f))) result else result);
         result = (case postIds f of
                     None \<Rightarrow> result
                   | Some ids \<Rightarrow> if length ids > 0
                                then Array_filter (\<lambda>p. post_id p \<in> set ids) result else result)
     in result)"

text \<open>
  A specification is active when at least one of its predicates is; \<open>unchanged\<close> says that
  every array object of the first store is in the second with the same content.
\<close>

definition active :: "filters \<Rightarrow> bool" where
  "active f =
     (submolts f \<noteq> [] \<or> authors f \<noteq> [] \<or> tags f \<noteq> [] \<or> classNotes f \<noteq> [] \<or>
      0 < minUpvotes (engagement f) \<or> 0 < minComments (engagement f) \<or> search f \<noteq> [] \<or>
      (postIds f \<noteq> None \<and> postIds f \<noteq> Some []))"

definition unchanged :: "heap \<Rightarrow> heap \<Rightarrow> bool" where
  "unchanged h h' =
     (next_addr h \<le> next_addr h' \<and> (\<forall>a < next_addr h. arrays h' a = arrays h a))"

definition corpus_heap :: heap where
  "corpus_heap = \<lparr>arrays = [0 \<mapsto> example_posts], next_addr = 1\<rparr>"

text \<open>
  The state of \<open>filterPosts\<close> between two of its steps: \<open>result\<close> holds the posts of the
  corpus that pass the predicate \<open>Q\<close> of the steps so far; it is the corpus array itself
  in the unchanged store as long as no step was active, and an array allocated by the
  query after that.
\<close>

definition filter_inv ::
  "heap \<Rightarrow> nat \<Rightarrow> (post \<Rightarrow> bool) \<Rightarrow> bool \<Rightarrow> nat \<times> heap \<Rightarrow> bool" where
  "filter_inv h0 c0 Q act rh =
     (unchanged h0 (snd rh) \<and> fst rh < next_addr (snd rh) \<and>
      read_array (snd rh) (fst rh) = filter Q (read_array h0 c0) \<and>
      (if act then next_addr h0 \<le> fst rh else rh = (c0, h0)))"

section \<open>Properties of the index\<close>

lemma get_or_empty_push_group:
  "get_or_empty (push_group k v m) k' =
     (if k' = k then get_or_empty m k @ [v] else get_or_empty m k')"
  by (simp add: get_or_empty_def push_group_def update_conv')

lemma get_or_empty_fold_push:
  "get_or_empty (fold (\<lambda>t. push_group (key t) t) ts m) k =
     get_or_empty m k @ filter (\<lambda>t. key t = k) ts"
  by (induction ts arbitrary: m) (simp_all add: get_or_empty_push_group)

lemma tagsByPostId_loadAll:
  "get_or_empty (tagsByPostId (loadAll ps ts ns es)) i = filter (\<lambda>t. tag_post_id t = i) ts"
  by (simp add: loadAll_def buildIndexes_def get_or_empty_fold_push)
     (simp add: get_or_empty_def)

lemma classNotesByPostId_loadAll:
  "get_or_empty (classNotesByPostId (loadAll ps ts ns es)) i =
     filter (\<lambda>n. note_post_id n = i) ns"
  by (simp add: loadAll_def buildIndexes_def get_or_empty_fold_push)
     (simp add: get_or_empty_def)

lemma posts_loadAll: "posts (loadAll ps ts ns es) = ps"
  by (simp add: loadAll_def buildIndexes_def)

section \<open>Properties of filterPosts\<close>

lemma if_filter: "(if c then filter P xs else xs) = filter (\<lambda>x. \<not> c \<or> P x) xs"
  by simp

lemma filterPosts_index:
  "filterPosts ds f = filter (index_satisfies ds f) (posts ds)"
proof -
  have ids: "(case postIds f of None \<Rightarrow> xs
              | Some ids \<Rightarrow> if length ids > 0 then filter (\<lambda>p. post_id p \<in> set ids) xs else xs)
           = filter (\<lambda>p. postIds f = None \<or> postIds f = Some [] \<or> post_id p \<in> set (the (postIds f))) xs"
    for xs
    by (cases "postIds f") auto
  have le: "(\<not> 0 < a) = (a \<le> 0)" for a :: int by auto
  show ?thesis
    unfolding filterPosts_def Let_def ids
    unfolding if_filter 
    unfolding filter_filter index_satisfies_def
    by (rule filter_cong[OF refl]) (simp only: length_greater_0_conv le not_not conj_ac)
qed

lemma index_satisfies_loadAll:
  "index_satisfies (loadAll ps ts ns es) f p = satisfies ts ns f p"
  unfolding index_satisfies_def satisfies_def tagsByPostId_loadAll classNotesByPostId_loadAll
    list_ex_iff
  by (simp only: set_filter mem_Collect_eq Bex_def conj_ac)

lemma index_satisfies_posts_update:
  "index_satisfies (ds\<lparr>posts := ps\<rparr>) f = index_satisfies ds f"
  by (simp add: index_satisfies_def fun_eq_iff)

lemma satisfies_no_filters: "satisfies ts ns no_filters p"
  by (simp add: satisfies_def no_filters_def)

lemma startsWith_iff: "startsWith s q \<longleftrightarrow> (\<exists>v. s = q @ v)"
  by (induction s q rule: startsWith.induct) auto

lemma String_includes_iff: "String_includes s q \<longleftrightarrow> (\<exists>u v. s = u @ q @ v)"
proof (induction s)
  case Nil
  then show ?case by simp
next
  case (Cons d s)
  show ?case
  proof
    assume "String_includes (d # s) q"
    then consider "startsWith (d # s) q" | "String_includes s q" by auto
    then show "\<exists>u v. d # s = u @ q @ v"
    proof cases
      case 1
      then obtain v where "d # s = q @ v" by (auto simp: startsWith_iff)
      then have "d # s = [] @ q @ v" by simp
      then show ?thesis by blast
    next
      case 2
      then obtain u v where "s = u @ q @ v" using Cons.IH by auto
      then have "d # s = (d # u) @ q @ v" by simp
      then show ?thesis by blast
    qed
  next
    assume "\<exists>u v. d # s = u @ q @ v"
    then obtain u v where uv: "d # s = u @ q @ v" by auto
    show "String_includes (d # s) q"
    proof (cases u)
      case Nil
      with uv have "startsWith (d # s) q" by (auto simp: startsWith_iff)
      then show ?thesis by simp
    next
      case (Cons a u')
      with uv have "s = u' @ q @ v" by simp
      then have "String_includes s q" using Cons.IH by blast
      then show ?thesis by simp
    qed
  qed
qed

text \<open>
  C1. Over a loaded corpus \<open>filterPosts\<close> returns the subsequence of the corpus, in corpus
  order, of exactly the posts that satisfy every active predicate of the specification; a
  predicate whose field is empty is skipped. With the all-empty specification the corpus
  itself comes back, and on the four example posts \<open>minUpvotes = 10\<close> selects \<open>[B, C]\<close>.
\<close>

theorem filterPosts_subsequence:
  "filterPosts (loadAll ps ts ns es) f = filter (satisfies ts ns f) ps \<and>
   filterPosts (loadAll ps ts ns es) no_filters = ps \<and>
   filterPosts (loadAll example_posts [] [] [])
     (no_filters\<lparr>engagement := \<lparr>minUpvotes = 10, minComments = 0\<rparr>\<rparr>)
     = [mk_post ''B'' ''B'' ''m1'' 12 8, mk_post ''C'' ''C'' ''m1'' 20 3]"
proof -
  have gen: "filterPosts (loadAll ps ts ns es) f = filter (satisfies ts ns f) ps" for ps ts ns es f
    by (simp add: filterPosts_index index_satisfies_loadAll posts_loadAll cong: filter_cong)
  have "filterPosts (loadAll ps ts ns es) no_filters = ps"
    by (simp add: gen satisfies_no_filters)
  moreover have "filter (satisfies [] [] (no_filters\<lparr>engagement := \<lparr>minUpvotes = 10, minComments = 0\<rparr>\<rparr>))
      example_posts = [mk_post ''B'' ''B'' ''m1'' 12 8, mk_post ''C'' ''C'' ''m1'' 20 3]"
    by (simp add: satisfies_def no_filters_def example_posts_def mk_post_def)
  ultimately show ?thesis using gen by simp
qed

text \<open>An instance with a tag predicate and a comment threshold active at once.\<close>

theorem filterPosts_subsequence_witness:
  "filterPosts (loadAll example_posts
      [\<lparr>tag_post_id = ''A'', tag = ''style:dry'', tag_namespace = ''style''\<rparr>,
       \<lparr>tag_post_id = ''C'', tag = ''intent:ask'', tag_namespace = ''intent''\<rparr>,
       \<lparr>tag_post_id = ''D'', tag = ''style:dry'', tag_namespace = ''style''\<rparr>] [] [])
     (no_filters\<lparr>tags := [''style:dry''], engagement := \<lparr>minUpvotes = 0, minComments = 1\<rparr>\<rparr>)
     = [mk_post ''A'' ''A'' ''m1'' 5 5]"
  using filterPosts_subsequence [of example_posts
      "[\<lparr>tag_post_id = ''A'', tag = ''style:dry'', tag_namespace = ''style''\<rparr>,
       \<lparr>tag_post_id = ''C'', tag = ''intent:ask'', tag_namespace = ''intent''\<rparr>,
       \<lparr>tag_post_id = ''D'', tag = ''style:dry'', tag_namespace = ''style''\<rparr>]" "[]" "[]"
      "no_filters\<lparr>tags := [''style:dry''], engagement := \<lparr>minUpvotes = 0, minComments = 1\<rparr>\<rparr>"]
  by (simp add: satisfies_def no_filters_def example_posts_def mk_post_def)

text \<open>
  C8. Filtering is idempotent: filtering the result of \<open>filterPosts\<close> once more with the
  same specification returns that result, whether the corpus array alone is replaced or
  the filtered posts are loaded and indexed afresh.
\<close>

theorem filterPosts_idempotent:
  "filterPosts (ds\<lparr>posts := filterPosts ds f\<rparr>) f = filterPosts ds f \<and>
   filterPosts (loadAll (filterPosts (loadAll ps ts ns es) f) ts ns es) f
     = filterPosts (loadAll ps ts ns es) f"
proof -
  have "filterPosts (loadAll ps ts ns es) f = filter (satisfies ts ns f) ps" for ps
    by (simp add: filterPosts_index index_satisfies_loadAll posts_loadAll cong: filter_cong)
  then show ?thesis
    by (simp add: filterPosts_index index_satisfies_posts_update)
qed

text \<open>An instance with an author predicate and a search string.\<close>

theorem filterPosts_idempotent_witness:
  "filterPosts ((loadAll example_posts [] [] [])\<lparr>posts :=
       filterPosts (loadAll example_posts [] [] [])
         (no_filters\<lparr>authors := [''C'', ''A''], search := ''a''\<rparr>)\<rparr>)
     (no_filters\<lparr>authors := [''C'', ''A''], search := ''a''\<rparr>)
   = [mk_post ''A'' ''A'' ''m1'' 5 5]"
  using filterPosts_idempotent [of "loadAll example_posts [] [] []"
       "no_filters\<lparr>authors := [''C'', ''A''], search := ''a''\<rparr>" example_posts "[]" "[]" "[]"]
  by (simp add: filterPosts_def loadAll_def buildIndexes_def no_filters_def example_posts_def
      mk_post_def search_match_def toLowerCase_def toLowerCase_char_def add32_def)

text \<open>
  C6, as stated, fails: \<open>if (filters.search)\<close> skips the predicate for the empty string
  only. A search string of one space is matched like any other string, and no field of
  the example posts contains a space.
\<close>

theorem blank_search_counterexample:
  "filterPosts (loadAll example_posts [] [] []) (no_filters\<lparr>search := '' ''\<rparr>)
     \<noteq> filterPosts (loadAll example_posts [] [] []) (no_filters\<lparr>search := ''''\<rparr>)"
  by (simp add: filterPosts_def loadAll_def buildIndexes_def no_filters_def example_posts_def
      mk_post_def search_match_def toLowerCase_def toLowerCase_char_def add32_def)

text \<open>
  C6, amended. The free-text predicate is skipped exactly when \<open>search\<close> is the empty
  string. Any other string, a blank one too, keeps the posts whose lower-cased title,
  content or author name contains the lower-cased search string as a contiguous block;
  two search strings that differ only in case select the same posts.
\<close>

theorem search_predicate:
  "filterPosts ds f =
     (if search f = [] then filterPosts ds (f\<lparr>search := []\<rparr>)
      else filter (\<lambda>p. String_includes (toLowerCase (title p)) (toLowerCase (search f))
                     \<or> String_includes (toLowerCase (content p)) (toLowerCase (search f))
                     \<or> String_includes (toLowerCase (author_name p)) (toLowerCase (search f)))
             (filterPosts ds (f\<lparr>search := []\<rparr>))) \<and>
   (String_includes s r \<longleftrightarrow> (\<exists>u v. s = u @ r @ v)) \<and>
   (toLowerCase q = toLowerCase q' \<longrightarrow>
      filterPosts ds (f\<lparr>search := q\<rparr>) = filterPosts ds (f\<lparr>search := q'\<rparr>))"
proof -
  have a: "toLowerCase q = toLowerCase q' \<Longrightarrow> (q = []) = (q' = [])" for q q'
    by (metis toLowerCase_def map_is_Nil_conv)
  have 1: "filterPosts ds f =
     (if search f = [] then filterPosts ds (f\<lparr>search := []\<rparr>)
      else filter (\<lambda>p. String_includes (toLowerCase (title p)) (toLowerCase (search f))
                     \<or> String_includes (toLowerCase (content p)) (toLowerCase (search f))
                     \<or> String_includes (toLowerCase (author_name p)) (toLowerCase (search f)))
             (filterPosts ds (f\<lparr>search := []\<rparr>)))"
    unfolding filterPosts_index
    by (auto simp add: index_satisfies_def search_match_def intro!: filter_cong)
  have 3: "toLowerCase q = toLowerCase q' \<longrightarrow>
      filterPosts ds (f\<lparr>search := q\<rparr>) = filterPosts ds (f\<lparr>search := q'\<rparr>)"
    unfolding filterPosts_index
    by (auto simp add: index_satisfies_def dest: a intro!: filter_cong)
  show ?thesis using 1 3 String_includes_iff by blast
qed

text \<open>
  An instance: \<open>B\<close> and \<open>b\<close> select the same post of the example corpus, and the empty
  string selects all four.
\<close>

theorem search_predicate_witness:
  "toLowerCase ''B'' = toLowerCase ''b'' \<and>
   filterPosts (loadAll example_posts [] [] []) (no_filters\<lparr>search := ''B''\<rparr>)
     = filterPosts (loadAll example_posts [] [] []) (no_filters\<lparr>search := ''b''\<rparr>) \<and>
   filterPosts (loadAll example_posts [] [] []) (no_filters\<lparr>search := ''b''\<rparr>)
     = [mk_post ''B'' ''B'' ''m1'' 12 8] \<and>
   filterPosts (loadAll example_posts [] [] []) (no_filters\<lparr>search := ''''\<rparr>) = example_posts"
  using search_predicate [where ds = "loadAll example_posts [] [] []"
      and f = "no_filters\<lparr>search := ''b''\<rparr>" and q = "''B''" and q' = "''b''"
      and s = "[]" and r = "[]"]
  by (simp add: filterPosts_def loadAll_def buildIndexes_def no_filters_def example_posts_def
      mk_post_def search_match_def toLowerCase_def toLowerCase_char_def add32_def)

section \<open>Counting and ranking\<close>

lemma set_first_seen: "set (first_seen xs) = set xs"
  by (induction xs) auto

lemma distinct_first_seen: "distinct (first_seen xs)"
  by (induction xs) (auto simp: set_first_seen)

lemma keys_fold_update:
  "map fst (fold (\<lambda>p m. AList.update (key p) (val p m) m) ps m) =
     map fst m @ filter (\<lambda>k. k \<notin> fst ` set m) (first_seen (map key ps))"
proof (induction ps arbitrary: m)
  case Nil
  then show ?case by simp
next
  case (Cons p ps)
  show ?case
  proof (cases "key p \<in> fst ` set m")
    case True
    then have "filter (\<lambda>k. k \<notin> fst ` set m) (filter (\<lambda>y. y \<noteq> key p) (first_seen (map key ps)))
         = filter (\<lambda>k. k \<notin> fst ` set m) (first_seen (map key ps))"
      by (auto intro!: filter_cong)
    with True show ?thesis
      by (simp add: Cons.IH update_keys dom_update insert_absorb)
  next
    case False
    have "(\<lambda>k. k \<noteq> key p \<and> k \<notin> fst ` set m) = (\<lambda>k. k \<notin> fst ` set m \<and> k \<noteq> key p)"
      by auto
    with False show ?thesis
      by (simp add: Cons.IH update_keys dom_update)
  qed
qed

lemma alist_eq_keys_values:
  "distinct (map fst m) \<Longrightarrow> map (\<lambda>k. (k, the (map_of m k))) (map fst m) = m"
proof (induction m)
  case Nil
  then show ?case by simp
next
  case (Cons kv m)
  obtain a b where kv: "kv = (a, b)" by (cases kv)
  from Cons.prems kv have notin: "a \<notin> fst ` set m" and d: "distinct (map fst m)" by auto
  have "map (\<lambda>k. (k, the (map_of ((a, b) # m) k))) (map fst m)
      = map (\<lambda>k. (k, the (map_of m k))) (map fst m)"
    using notin by (intro map_cong) auto
  with Cons.IH[OF d] kv show ?case by simp
qed

lemma cnt_add_count:
  "map_of (add_count k n m) k' =
     (if k' = k then Some ((case map_of m k of None \<Rightarrow> 0 | Some c \<Rightarrow> c) + n) else map_of m k')"
  by (simp add: add_count_def update_conv')

lemma map_of_fold_add_count:
  "map_of (fold (\<lambda>p. add_count (key p) n) ps m) k =
     (if k \<in> key ` set ps
      then Some ((case map_of m k of None \<Rightarrow> 0 | Some c \<Rightarrow> c) + n * count_list (map key ps) k)
      else map_of m k)"
  by (induction ps arbitrary: m) (auto simp add: cnt_add_count)

lemma distinct_fold_update:
  "distinct (map fst m) \<Longrightarrow>
     distinct (map fst (fold (\<lambda>p m. AList.update (key p) (val p m) m) ps m))"
  by (induction ps arbitrary: m) (simp_all add: distinct_update)

lemma counts_entries:
  "fold (\<lambda>p. add_count (key p) 1) ps [] =
     map (\<lambda>k. (k, count_list (map key ps) k)) (first_seen (map key ps))"
proof -
  let ?m = "fold (\<lambda>p. add_count (key p) 1) ps []"
  have fold_eq: "?m = fold (\<lambda>p m. AList.update (key p)
        ((case map_of m (key p) of None \<Rightarrow> 0 | Some c \<Rightarrow> c) + 1) m) ps []"
    by (simp add: add_count_def[abs_def])
  have keys: "map fst ?m = first_seen (map key ps)"
    unfolding fold_eq by (subst keys_fold_update) simp
  have dist: "distinct (map fst ?m)"
    unfolding fold_eq by (rule distinct_fold_update) simp
  have "?m = map (\<lambda>k. (k, the (map_of ?m k))) (map fst ?m)"
    using alist_eq_keys_values[OF dist] by simp
  also have "\<dots> = map (\<lambda>k. (k, count_list (map key ps) k)) (first_seen (map key ps))"
    unfolding keys
    by (intro map_cong) (auto simp add: map_of_fold_add_count set_first_seen)
  finally show ?thesis .
qed

lemma insert_by_insort_key:
  assumes "\<And>a b. (cmp a b \<le> 0) = (f a \<le> f b)"
  shows "insert_by cmp a bs = insort_key f a bs"
  by (induction bs) (simp_all add: assms)

lemma Array_sort_sort_key:
  assumes "\<And>a b. (cmp a b \<le> 0) = (f a \<le> f b)"
  shows "Array_sort cmp as = sort_key f as"
proof -
  have "insert_by cmp = insort_key f"
    using insert_by_insort_key[OF assms] by (intro ext) 
  then show ?thesis by (simp add: Array_sort_def sort_key_def)
qed

lemma insort_key_map:
  "insort_key f (h x) (map h xs) = map h (insort_key (\<lambda>y. f (h y)) x xs)"
  by (induction xs) simp_all

lemma sort_key_map: "sort_key f (map h xs) = map h (sort_key (\<lambda>y. f (h y)) xs)"
  by (induction xs) (simp_all add: insort_key_map)

lemma filter_first_seen: "filter P (first_seen xs) = first_seen (filter P xs)"
proof (induction xs)
  case Nil
  then show ?case by simp
next
  case (Cons x xs)
  show ?case
  proof (cases "P x")
    case True
    have "filter P (filter (\<lambda>y. y \<noteq> x) (first_seen xs))
        = filter (\<lambda>y. y \<noteq> x) (filter P (first_seen xs))"
      by (simp add: conj_commute)
    with True Cons.IH show ?thesis by simp
  next
    case False
    then have "filter P (filter (\<lambda>y. y \<noteq> x) (first_seen xs)) = filter P (first_seen xs)"
      by (auto intro!: filter_cong)
    with False Cons.IH show ?thesis by simp
  qed
qed

lemma count_list_length_filter: "count_list (map f xs) k = length (filter (\<lambda>x. f x = k) xs)"
  by (induction xs) simp_all

lemma sorted_desc_sort_key:
  "sorted_wrt (\<lambda>a b. c b \<le> c a) (sort_key (\<lambda>a. - int (c a)) xs)"
proof -
  have "sorted (map (\<lambda>a. - int (c a)) (sort_key (\<lambda>a. - int (c a)) xs))"
    by (rule sorted_sort_key)
  then show ?thesis by (simp add: sorted_map)
qed

lemma sorted_wrt_take: "sorted_wrt R xs \<Longrightarrow> sorted_wrt R (take n xs)"
  by (metis append_take_drop_id sorted_wrt_append)

lemma ranked_counts_props:
  "sorted_wrt (\<lambda>a b. snd b \<le> snd a) (ranked_counts ks)"
  "map fst (filter (\<lambda>kc. snd kc = c) (ranked_counts ks))
     = filter (\<lambda>k. count_list ks k = c) (first_seen ks)"
  "set (ranked_counts ks) = (\<lambda>k. (k, count_list ks k)) ` set ks"
  "distinct (map fst (ranked_counts ks))"
proof -
  show "sorted_wrt (\<lambda>a b. snd b \<le> snd a) (ranked_counts ks)"
    unfolding ranked_counts_def by (rule sorted_desc_sort_key)
  have "filter (\<lambda>kc. - int (snd kc) = - int c) (ranked_counts ks)
      = filter (\<lambda>kc. - int (snd kc) = - int c) (map (\<lambda>k. (k, count_list ks k)) (first_seen ks))"
    unfolding ranked_counts_def by (rule sort_key_stable)
  then show "map fst (filter (\<lambda>kc. snd kc = c) (ranked_counts ks))
     = filter (\<lambda>k. count_list ks k = c) (first_seen ks)"
    by (simp add: filter_map comp_def)
  show "set (ranked_counts ks) = (\<lambda>k. (k, count_list ks k)) ` set ks"
    by (simp add: ranked_counts_def set_first_seen)
  have "map fst (ranked_counts ks)
      = sort_key (\<lambda>k. - int (count_list ks k)) (first_seen ks)"
    unfolding ranked_counts_def sort_key_map by (simp add: comp_def)
  then show "distinct (map fst (ranked_counts ks))"
    by (simp add: distinct_first_seen)
qed

lemma getTopItems_eq:
  "map (\<lambda>t. (item_name t, item_count t)) (getTopItems ps field limit disp)
     = take limit (ranked_counts (map field ps))"
proof -
  let ?mk = "\<lambda>(name, count). \<lparr>item_name = name, item_count = count,
      displayName = (case map_of (case disp of None \<Rightarrow> []
                     | Some d \<Rightarrow> fold (\<lambda>p. AList.update (field p) (d p)) ps []) name of
                                       None \<Rightarrow> name
                                     | Some d \<Rightarrow> if d = [] then name else d)\<rparr>"
  have srt: "Array_sort (\<lambda>a b. int (item_count b) - int (item_count a)) xs
      = sort_key (\<lambda>a. - int (item_count a)) xs" for xs :: "top_item list"
    by (rule Array_sort_sort_key) auto
  have key: "(\<lambda>y. - int (item_count (?mk y))) = (\<lambda>kc. - int (snd kc))"
    by (auto simp: fun_eq_iff)
  have proj: "map (\<lambda>t. (item_name t, item_count t)) (map ?mk xs) = xs" for xs
    by (induction xs) auto
  have "map (\<lambda>t. (item_name t, item_count t)) (getTopItems ps field limit disp)
      = take limit (map (\<lambda>t. (item_name t, item_count t))
          (sort_key (\<lambda>a. - int (item_count a))
             (map ?mk (map (\<lambda>k. (k, count_list (map field ps) k)) (first_seen (map field ps))))))"
    unfolding getTopItems_def Let_def srt counts_entries by (simp only: take_map)
  also have "\<dots> = take limit (sort_key (\<lambda>kc. - int (snd kc))
             (map (\<lambda>k. (k, count_list (map field ps) k)) (first_seen (map field ps))))"
    unfolding sort_key_map[of _ ?mk] key proj ..
  finally show ?thesis by (simp only: ranked_counts_def)
qed

text \<open>
  C7. \<open>getTopItems\<close> returns one entry for each distinct key, with the number of posts
  that carry it, sorted by descending count and cut to \<open>limit\<close>; keys with the same count
  stay in the order in which they are first met in the input. Over the four example
  posts, whose authors are all different, the two top authors are the first two met.
\<close>

theorem getTopItems_ranking:
  "map (\<lambda>t. (item_name t, item_count t)) (getTopItems ps field limit disp)
     = take limit (ranked_counts (map field ps)) \<and>
   set (ranked_counts ks) = (\<lambda>k. (k, count_list ks k)) ` set ks \<and>
   distinct (map fst (ranked_counts ks)) \<and>
   sorted_wrt (\<lambda>a b. snd b \<le> snd a) (ranked_counts ks) \<and>
   map fst (filter (\<lambda>kc. snd kc = c) (ranked_counts ks))
     = filter (\<lambda>k. count_list ks k = c) (first_seen ks) \<and>
   map item_name (getTopItems example_posts author_name 2 None) = [''A'', ''B'']"
proof -
  have "map fst (map (\<lambda>t. (item_name t, item_count t)) (getTopItems example_posts author_name 2 None))
     = map fst (take 2 (ranked_counts (map author_name example_posts)))"
    by (simp only: getTopItems_eq)
  also have "\<dots> = [''A'', ''B'']"
    by (simp add: ranked_counts_def example_posts_def mk_post_def)
  finally have "map item_name (getTopItems example_posts author_name 2 None) = [''A'', ''B'']"
    by (simp add: comp_def)
  then show ?thesis
    using getTopItems_eq ranked_counts_props by blast
qed

text \<open>An instance with counts 3, 2, 1, 1 and \<open>limit = 3\<close>.\<close>

theorem getTopItems_ranking_witness:
  "map (\<lambda>t. (item_name t, item_count t))
     (getTopItems (example_posts @ [mk_post ''E'' ''C'' ''m2'' 1 1, mk_post ''F'' ''B'' ''m2'' 1 1,
        mk_post ''G'' ''C'' ''m2'' 1 1]) author_name 3 None)
   = [(''C'', 3), (''B'', 2), (''A'', 1)]"
  using getTopItems_ranking [of "example_posts @ [mk_post ''E'' ''C'' ''m2'' 1 1,
       mk_post ''F'' ''B'' ''m2'' 1 1, mk_post ''G'' ''C'' ''m2'' 1 1]" author_name 3 None "[]" 0]
  by (simp add: ranked_counts_def example_posts_def mk_post_def)

section \<open>Duplicate detection\<close>

lemma fold_skip:
  "fold (\<lambda>p m. if skip p then m else g p m) ps m = fold g (filter (\<lambda>p. \<not> skip p) ps) m"
  by (induction ps arbitrary: m) simp_all

lemma filter_key_empty: "k \<notin> key ` set ps \<Longrightarrow> filter (\<lambda>p. key p = k) ps = []"
  by (induction ps) auto

lemma map_of_push_group:
  "map_of (push_group k v m) k' = (if k' = k then Some (get_or_empty m k @ [v]) else map_of m k')"
  by (simp add: push_group_def update_conv')

lemma map_of_fold_push_group:
  "map_of (fold (\<lambda>p. push_group (key p) p) ps m) k =
     (if k \<in> key ` set ps then Some (get_or_empty m k @ filter (\<lambda>p. key p = k) ps)
      else map_of m k)"
proof (induction ps arbitrary: m)
  case Nil
  then show ?case by simp
next
  case (Cons p ps)
  show ?case
    by (simp add: Cons.IH map_of_push_group get_or_empty_push_group filter_key_empty
        get_or_empty_def)
qed

lemma groups_entries:
  "fold (\<lambda>p. push_group (key p) p) ps [] =
     map (\<lambda>k. (k, filter (\<lambda>p. key p = k) ps)) (first_seen (map key ps))"
proof -
  let ?m = "fold (\<lambda>p. push_group (key p) p) ps []"
  have fold_eq: "?m = fold (\<lambda>p m. AList.update (key p) (get_or_empty m (key p) @ [p]) m) ps []"
    by (simp add: push_group_def[abs_def])
  have keys: "map fst ?m = first_seen (map key ps)"
    unfolding fold_eq by (subst keys_fold_update) simp
  have dist: "distinct (map fst ?m)"
    unfolding fold_eq by (rule distinct_fold_update) simp
  have "?m = map (\<lambda>k. (k, the (map_of ?m k))) (map fst ?m)"
    using alist_eq_keys_values[OF dist] by simp
  also have "\<dots> = map (\<lambda>k. (k, filter (\<lambda>p. key p = k) ps)) (first_seen (map key ps))"
    unfolding keys
    by (intro map_cong) (auto simp add: map_of_fold_push_group set_first_seen get_or_empty_def)
  finally show ?thesis .
qed

lemma filter_map_pair:
  "filter (\<lambda>(t, arr). P arr) (map (\<lambda>k. (k, F k)) ks)
     = map (\<lambda>k. (k, F k)) (filter (\<lambda>k. P (F k)) ks)"
  by (induction ks) simp_all

lemma findDuplicates_eq:
  "findDuplicates ps = take 20 (sort_key (\<lambda>g. - int (dup_count g)) (duplicate_groups ps))"
proof -
  let ?nt = normalized_title
  let ?qs = "filter (\<lambda>p. \<not> length (?nt p) < 10) ps"
  let ?mk = "\<lambda>(t, arr). \<lparr>dup_title = t, dup_count = length arr, dup_posts = arr\<rparr>"
  let ?grp = "\<lambda>xs k. filter (\<lambda>p. ?nt p = k) xs"
  have srt: "Array_sort (\<lambda>a b. int (dup_count b) - int (dup_count a)) xs
      = sort_key (\<lambda>a. - int (dup_count a)) xs" for xs :: "duplicate_group list"
    by (rule Array_sort_sort_key) auto
  have "fold (\<lambda>p m. if length (trim (toLowerCase (title p))) < 10 then m
                        else push_group (trim (toLowerCase (title p))) p m) ps []
      = fold (\<lambda>p m. if length (?nt p) < 10 then m else push_group (?nt p) p m) ps []"
    by (simp only: normalized_title_def)
  also have "\<dots> = fold (\<lambda>p. push_group (?nt p) p) ?qs []"
    by (rule fold_skip)
  also have "\<dots> = map (\<lambda>k. (k, ?grp ?qs k)) (first_seen (map ?nt ?qs))"
    by (rule groups_entries)
  finally have groups: "fold (\<lambda>p m. if length (trim (toLowerCase (title p))) < 10 then m
                        else push_group (trim (toLowerCase (title p))) p m) ps []
      = map (\<lambda>k. (k, ?grp ?qs k)) (first_seen (map ?nt ?qs))" .
  have keys: "first_seen (map ?nt ?qs) = filter (\<lambda>k. 10 \<le> length k) (first_seen (map ?nt ps))"
    by (simp add: filter_first_seen filter_map comp_def not_less)
  have same: "?grp ?qs k = ?grp ps k" if "k \<in> set (filter (\<lambda>k. 10 \<le> length k) (first_seen (map ?nt ps)))" for k
    using that by (auto intro!: filter_cong)
  have "map (\<lambda>k. (k, ?grp ?qs k)) (first_seen (map ?nt ?qs))
      = map (\<lambda>k. (k, ?grp ps k)) (filter (\<lambda>k. 10 \<le> length k) (first_seen (map ?nt ps)))"
    unfolding keys by (rule map_cong[OF refl]) (simp only: same)
  then have groups': "fold (\<lambda>p m. if length (trim (toLowerCase (title p))) < 10 then m
                        else push_group (trim (toLowerCase (title p))) p m) ps []
      = map (\<lambda>k. (k, ?grp ps k)) (filter (\<lambda>k. 10 \<le> length k) (first_seen (map ?nt ps)))"
    using groups by simp
  have flt: "filter (\<lambda>(t, arr). length arr > 1)
        (map (\<lambda>k. (k, ?grp ps k)) (filter (\<lambda>k. 10 \<le> length k) (first_seen (map ?nt ps))))
      = map (\<lambda>k. (k, ?grp ps k))
          (filter (\<lambda>k. 10 \<le> length k \<and> 1 < count_list (map ?nt ps) k) (first_seen (map ?nt ps)))"
    unfolding filter_map_pair[of "\<lambda>arr. length arr > 1"] filter_filter count_list_length_filter
    by (simp only: conj_commute)
  have mk: "map ?mk (map (\<lambda>k. (k, ?grp ps k)) ks)
      = map (\<lambda>k. \<lparr>dup_title = k, dup_count = length (?grp ps k), dup_posts = ?grp ps k\<rparr>) ks" for ks
    by simp
  show ?thesis
    unfolding findDuplicates_def Let_def groups' flt mk srt duplicate_groups_def ..
qed

lemma duplicate_groups_member:
  assumes "g \<in> set (duplicate_groups ps)"
  shows "10 \<le> length (dup_title g) \<and> 2 \<le> dup_count g \<and> dup_count g = length (dup_posts g) \<and>
         dup_posts g = filter (\<lambda>p. trim (toLowerCase (title p)) = dup_title g) ps"
proof -
  from assms obtain k where k: "10 \<le> length k" "1 < count_list (map normalized_title ps) k"
    and g: "g = \<lparr>dup_title = k, dup_count = length (filter (\<lambda>p. normalized_title p = k) ps),
                 dup_posts = filter (\<lambda>p. normalized_title p = k) ps\<rparr>"
    unfolding duplicate_groups_def by auto
  from k(2) have "2 \<le> length (filter (\<lambda>p. normalized_title p = k) ps)"
    by (simp add: count_list_length_filter)
  with k(1) g show ?thesis by (simp add: normalized_title_def)
qed

lemma distinct_duplicate_titles:
  "distinct (map dup_title (sort_key (\<lambda>g. - int (dup_count g)) (duplicate_groups ps)))"
proof -
  let ?ks = "filter (\<lambda>k. 10 \<le> length k \<and> 1 < count_list (map normalized_title ps) k)
          (first_seen (map normalized_title ps))"
  have "map dup_title (sort_key (\<lambda>g. - int (dup_count g)) (duplicate_groups ps))
      = sort_key (\<lambda>k. - int (length (filter (\<lambda>p. normalized_title p = k) ps))) ?ks"
    unfolding duplicate_groups_def sort_key_map by (simp add: comp_def)
  moreover have "distinct ?ks" by (simp add: distinct_first_seen)
  ultimately show ?thesis by simp
qed

text \<open>
  C9. \<open>findDuplicates\<close> groups the posts by normalized title (lower-cased, then trimmed),
  drops the keys shorter than 10 characters and the groups of one post, sorts the groups by
  descending size and returns the first 20 at most. So every returned group has a key of
  at least 10 characters and at least two posts, which are exactly the posts of the input
  with that normalized title, and no key is returned twice.
\<close>

theorem findDuplicates_groups:
  "findDuplicates ps = take 20 (sort_key (\<lambda>g. - int (dup_count g)) (duplicate_groups ps)) \<and>
   length (findDuplicates ps) \<le> 20 \<and>
   (\<forall>g \<in> set (findDuplicates ps).
      10 \<le> length (dup_title g) \<and> 2 \<le> dup_count g \<and> dup_count g = length (dup_posts g) \<and>
      dup_posts g = filter (\<lambda>p. trim (toLowerCase (title p)) = dup_title g) ps) \<and>
   sorted_wrt (\<lambda>a b. dup_count b \<le> dup_count a) (findDuplicates ps) \<and>
   distinct (map dup_title (findDuplicates ps))"
proof -
  let ?all = "sort_key (\<lambda>g. - int (dup_count g)) (duplicate_groups ps)"
  have eq: "findDuplicates ps = take 20 ?all" by (rule findDuplicates_eq)
  have len: "length (findDuplicates ps) \<le> 20" unfolding eq by simp
  have mem: "g \<in> set (duplicate_groups ps)" if "g \<in> set (findDuplicates ps)" for g
    using that in_set_takeD[of g 20 ?all] unfolding eq by simp
  have srt: "sorted_wrt (\<lambda>a b. dup_count b \<le> dup_count a) (findDuplicates ps)"
    unfolding eq by (rule sorted_wrt_take) (rule sorted_desc_sort_key)
  have dist: "distinct (map dup_title (findDuplicates ps))"
    unfolding eq take_map[symmetric] by (rule distinct_take) (rule distinct_duplicate_titles)
  from eq len srt dist mem duplicate_groups_member show ?thesis by blast
qed

text \<open>
  An instance: two posts titled \<open>Hello World!\<close> up to case and outer blanks, two posts
  with the short title \<open>gm\<close>, and one post with a title of its own.
\<close>

theorem findDuplicates_groups_witness:
  "findDuplicates duplicate_posts =
     [\<lparr>dup_title = ''hello world!'', dup_count = 2,
       dup_posts = [(mk_post ''1'' ''A'' ''m1'' 5 5)\<lparr>title := ''Hello World!''\<rparr>,
                    (mk_post ''3'' ''C'' ''m1'' 2 0)\<lparr>title := ''  HELLO world! ''\<rparr>]\<rparr>]"
proof -
  have "duplicate_groups duplicate_posts =
     [\<lparr>dup_title = ''hello world!'', dup_count = 2,
       dup_posts = [(mk_post ''1'' ''A'' ''m1'' 5 5)\<lparr>title := ''Hello World!''\<rparr>,
                    (mk_post ''3'' ''C'' ''m1'' 2 0)\<lparr>title := ''  HELLO world! ''\<rparr>]\<rparr>]"
    by (simp add: duplicate_groups_def duplicate_posts_def normalized_title_def mk_post_def
        trim_def isWhiteSpace_def toLowerCase_def toLowerCase_char_def add32_def)
  with findDuplicates_groups [of duplicate_posts] show ?thesis by simp
qed

section \<open>Histogram\<close>


















section \<open>Rectangle selection\<close>

lemma between_strict_mono:
  assumes "strict_mono (f :: real \<Rightarrow> real)"
  shows "(min (f a) (f b) \<le> f x \<and> f x \<le> max (f a) (f b)) = (min a b \<le> x \<and> x \<le> max a b)"
proof -
  have le: "f u \<le> f v \<longleftrightarrow> u \<le> v" for u v
    using assms by (rule strict_mono_less_eq)
  have mn: "min (f a) (f b) = f (min a b)" and mx: "max (f a) (f b) = f (max a b)"
    by (simp_all add: min_def max_def le)
  show ?thesis unfolding mn mx le ..
qed

lemma between_monotone_scale:
  assumes "monotone_scale f"
  shows "(min (f a) (f b) \<le> f x \<and> f x \<le> max (f a) (f b)) = (min a b \<le> x \<and> x \<le> max a b)"
proof -
  from assms consider "strict_mono f" | "strict_mono (\<lambda>x. - f x)"
    unfolding monotone_scale_def by blast
  then show ?thesis
  proof cases
    case 1
    then show ?thesis by (rule between_strict_mono)
  next
    case 2
    have "(min (f a) (f b) \<le> f x \<and> f x \<le> max (f a) (f b))
        = (min (- f a) (- f b) \<le> - f x \<and> - f x \<le> max (- f a) (- f b))"
      by (auto simp: min_def max_def)
    also have "\<dots> = (min a b \<le> x \<and> x \<le> max a b)"
      using between_strict_mono[OF 2] .
    finally show ?thesis .
  qed
qed

lemma mouseup_select_Some:
  "mouseup_select ident getx gety xScale yScale (Some s) m pts =
    (let sel = map ident (filter (\<lambda>d. min (fst s) (fst m) \<le> xScale (getx d)
                \<and> xScale (getx d) \<le> max (fst s) (fst m)
                \<and> min (snd s) (snd m) \<le> yScale (gety d)
                \<and> yScale (gety d) \<le> max (snd s) (snd m)) pts)
     in if 5 < \<bar>fst m - fst s\<bar> \<and> 5 < \<bar>snd m - snd s\<bar> \<and> sel \<noteq> [] then Some sel else None)"
proof -
  have w: "max a b - min a b = \<bar>b - a\<bar>" for a b :: real
    by (simp add: max_def min_def)
  show ?thesis
    unfolding mouseup_select_def option.case Let_def w
    by (simp add: conj_ac)
qed

lemma pointsInRect_eq:
  assumes "monotone_scale xScale" "monotone_scale yScale"
  shows "pointsInRect ident getx gety xScale yScale c c' pts =
     (if 5 < \<bar>xScale (fst c') - xScale (fst c)\<bar> \<and> 5 < \<bar>yScale (snd c') - yScale (snd c)\<bar>
      then map ident (filter (\<lambda>d. in_rect c c' (getx d) (gety d)) pts) else [])"
proof -
  have "(\<lambda>d. min (xScale (fst c)) (xScale (fst c')) \<le> xScale (getx d)
                \<and> xScale (getx d) \<le> max (xScale (fst c)) (xScale (fst c'))
                \<and> min (yScale (snd c)) (yScale (snd c')) \<le> yScale (gety d)
                \<and> yScale (gety d) \<le> max (yScale (snd c)) (yScale (snd c')))
      = (\<lambda>d. in_rect c c' (getx d) (gety d))"
    using between_monotone_scale[OF assms(1), of "fst c" "fst c'"]
      between_monotone_scale[OF assms(2), of "snd c" "snd c'"]
    unfolding in_rect_def by (intro ext) blast
  then show ?thesis
    unfolding pointsInRect_def mouseup_select_Some Let_def fst_conv snd_conv
    by (simp split: option.splits)
qed

lemma monotone_example_scales: "monotone_scale example_xScale" "monotone_scale example_yScale"
  unfolding monotone_scale_def example_xScale_def example_yScale_def
  by (auto intro!: strict_monoI)

text \<open>
  C3, as stated, fails: the handlers select only when the dragged rectangle is more than 5
  units wide and more than 5 units high in the drawing. The rectangle from \<open>(-0.2, -0.2)\<close>
  to \<open>(0.2, 0.2)\<close> in data space contains the only point and is drawn from \<open>(88, 92)\<close> to
  \<open>(92, 88)\<close>, 4 units wide, so nothing is selected.
\<close>

theorem thin_rectangle_counterexample:
  "in_rect (- 1 / 5, - 1 / 5) (1 / 5, 1 / 5) (emb_x origin_embedding) (emb_y origin_embedding) \<and>
   pointsInRect emb_post_id emb_x emb_y example_xScale example_yScale
     (- 1 / 5, - 1 / 5) (1 / 5, 1 / 5) [origin_embedding] = [] \<and>
   renderEmbeddings_mouseup example_xScale example_yScale (Some (88, 92)) (92, 88)
     [origin_embedding] = None"
  by (simp add: in_rect_def origin_embedding_def pointsInRect_def mouseup_select_def
      renderEmbeddings_mouseup_def example_xScale_def example_yScale_def)

text \<open>
  C3, amended. For scales that are strictly monotone, a rectangle that is drawn more than
  5 units wide and more than 5 units high selects the ids of exactly the points whose
  \<open>(x, y)\<close> lies within the rectangle, inclusive on all four edges, in the order of the
  point collection; every other rectangle, one of zero width or zero height among them,
  selects nothing. A rectangle of the first kind that contains all points selects all ids.
  The last conjunct is the handler itself, in the coordinates of the drawing.
\<close>

theorem rectangle_selection:
  assumes "monotone_scale xScale" and "monotone_scale yScale"
  shows
    "pointsInRect ident getx gety xScale yScale c c' pts =
       (if 5 < \<bar>xScale (fst c') - xScale (fst c)\<bar> \<and> 5 < \<bar>yScale (snd c') - yScale (snd c)\<bar>
        then map ident (filter (\<lambda>d. in_rect c c' (getx d) (gety d)) pts) else []) \<and>
     (fst c = fst c' \<or> snd c = snd c' \<longrightarrow>
        pointsInRect ident getx gety xScale yScale c c' pts = []) \<and>
     (5 < \<bar>xScale (fst c') - xScale (fst c)\<bar> \<and> 5 < \<bar>yScale (snd c') - yScale (snd c)\<bar> \<and>
      (\<forall>d\<in>set pts. in_rect c c' (getx d) (gety d)) \<longrightarrow>
        pointsInRect ident getx gety xScale yScale c c' pts = map ident pts) \<and>
     mouseup_select ident getx gety xScale yScale (Some s) m pts =
       (let sel = map ident (filter (\<lambda>d. min (fst s) (fst m) \<le> xScale (getx d)
                \<and> xScale (getx d) \<le> max (fst s) (fst m)
                \<and> min (snd s) (snd m) \<le> yScale (gety d)
                \<and> yScale (gety d) \<le> max (snd s) (snd m)) pts)
        in if 5 < \<bar>fst m - fst s\<bar> \<and> 5 < \<bar>snd m - snd s\<bar> \<and> sel \<noteq> [] then Some sel else None)"
proof -
  note eq = pointsInRect_eq[OF assms, of ident getx gety c c' pts]
  have zero: "fst c = fst c' \<or> snd c = snd c' \<longrightarrow>
        pointsInRect ident getx gety xScale yScale c c' pts = []"
    unfolding eq by auto
  have all: "5 < \<bar>xScale (fst c') - xScale (fst c)\<bar> \<and> 5 < \<bar>yScale (snd c') - yScale (snd c)\<bar> \<and>
      (\<forall>d\<in>set pts. in_rect c c' (getx d) (gety d)) \<longrightarrow>
        pointsInRect ident getx gety xScale yScale c c' pts = map ident pts"
    unfolding eq by (simp cong: filter_cong)
  from eq zero all mouseup_select_Some show ?thesis by blast
qed

text \<open>An instance: of three points the rectangle from \<open>(-1, -1)\<close> to \<open>(1, 3)\<close> holds two.\<close>

theorem rectangle_selection_witness:
  "monotone_scale example_xScale \<and> monotone_scale example_yScale \<and>
   pointsInRect emb_post_id emb_x emb_y example_xScale example_yScale (- 1, - 1) (1, 3)
     [origin_embedding, \<lparr>emb_post_id = ''P2'', emb_x = 2, emb_y = 1\<rparr>,
      \<lparr>emb_post_id = ''P3'', emb_x = 1, emb_y = 3\<rparr>] = [''P1'', ''P3'']"
  using rectangle_selection [OF monotone_example_scales, of emb_post_id emb_x emb_y
      "(- 1, - 1)" "(1, 3)" "[origin_embedding, \<lparr>emb_post_id = ''P2'', emb_x = 2, emb_y = 1\<rparr>,
      \<lparr>emb_post_id = ''P3'', emb_x = 1, emb_y = 3\<rparr>]" "(0, 0)" "(0, 0)"]
    monotone_example_scales
  by (simp add: in_rect_def origin_embedding_def example_xScale_def example_yScale_def)

section \<open>Similar posts\<close>
















section \<open>Tag network\<close>

lemma incident_weight_Cons:
  "incident_weight (e # es) t =
     (if tag_a e = t then weight e else 0) + (if tag_b e = t then weight e else 0)
     + incident_weight es t"
  by (simp add: incident_weight_def)

lemma incident_weight_notin:
  "t \<notin> tag_a ` set es \<union> tag_b ` set es \<Longrightarrow> incident_weight es t = 0"
  by (induction es) (auto simp add: incident_weight_def)

lemma map_of_nodeWeights_fold:
  "map_of (fold (\<lambda>e m. add_count (tag_b e) (weight e) (add_count (tag_a e) (weight e) m)) es m) t =
     (if t \<in> tag_a ` set es \<union> tag_b ` set es
      then Some ((case map_of m t of None \<Rightarrow> 0 | Some c \<Rightarrow> c) + incident_weight es t)
      else map_of m t)"
proof (induction es arbitrary: m)
  case Nil
  then show ?case by simp
next
  case (Cons e es)
  let ?m' = "add_count (tag_b e) (weight e) (add_count (tag_a e) (weight e) m)"
  have m': "map_of ?m' t =
      (if t = tag_a e \<or> t = tag_b e
       then Some ((case map_of m t of None \<Rightarrow> 0 | Some c \<Rightarrow> c)
                  + ((if tag_a e = t then weight e else 0) + (if tag_b e = t then weight e else 0)))
       else map_of m t)"
    by (simp add: cnt_add_count)
  show ?case
  proof (cases "t \<in> tag_a ` set es \<union> tag_b ` set es")
    case True
    then show ?thesis
      unfolding fold_Cons comp_def Cons.IH m' incident_weight_Cons by simp
  next
    case False
    then have "incident_weight es t = 0" by (rule incident_weight_notin)
    with False show ?thesis
      unfolding fold_Cons comp_def Cons.IH m' incident_weight_Cons by auto
  qed
qed

lemma map_of_nodeWeights:
  "map_of (nodeWeights es) t =
     (if t \<in> tag_a ` set es \<union> tag_b ` set es then Some (incident_weight es t) else None)"
  unfolding nodeWeights_def map_of_nodeWeights_fold by simp

lemma weight_le_incident:
  assumes "e \<in> set es"
  shows "weight e \<le> incident_weight es (tag_a e)" "weight e \<le> incident_weight es (tag_b e)"
proof -
  let ?f = "\<lambda>t e'. (if tag_a e' = t then weight e' else 0) + (if tag_b e' = t then weight e' else 0)"
  have mem: "?f t e \<le> sum_list (map (?f t) es)" for t
    using assms by (intro member_le_sum_list) auto
  have "weight e \<le> ?f (tag_a e) e" by simp
  also have "\<dots> \<le> sum_list (map (?f (tag_a e)) es)" by (rule mem)
  finally show "weight e \<le> incident_weight es (tag_a e)" by (simp only: incident_weight_def)
  have "weight e \<le> ?f (tag_b e) e" by simp
  also have "\<dots> \<le> sum_list (map (?f (tag_b e)) es)" by (rule mem)
  finally show "weight e \<le> incident_weight es (tag_b e)" by (simp only: incident_weight_def)
qed

lemma normalizedWeight_member:
  assumes "e \<in> set es"
  shows "normalizedWeight (nodeWeights es) e =
           js_times (js_divide (weight e) (heavier_end es e)) 100"
    and "weight e \<le> heavier_end es e"
proof -
  from assms have "tag_a e \<in> tag_a ` set es \<union> tag_b ` set es"
    and "tag_b e \<in> tag_a ` set es \<union> tag_b ` set es" by auto
  then show "normalizedWeight (nodeWeights es) e =
           js_times (js_divide (weight e) (heavier_end es e)) 100"
    unfolding normalizedWeight_def map_of_nodeWeights heavier_end_def by simp
  from weight_le_incident(1)[OF assms] show "weight e \<le> heavier_end es e"
    unfolding heavier_end_def by simp
qed

lemma normalizedWeight_cases:
  assumes "e \<in> set es"
  shows "normalizedWeight (nodeWeights es) e =
           (if heavier_end es e = 0 then NaN
            else Num (real (weight e) / real (heavier_end es e) * 100))"
  using normalizedWeight_member[OF assms]
  by (auto simp add: js_divide_def)

lemma normalizedWeight_positive:
  assumes "e \<in> set es" "0 < weight e"
  shows "normalizedWeight (nodeWeights es) e = Num (real (weight e) / real (heavier_end es e) * 100)"
    and "in_percent_range (normalizedWeight (nodeWeights es) e)"
proof -
  from normalizedWeight_member(2)[OF assms(1)] assms(2)
  have h: "0 < heavier_end es e" "real (weight e) \<le> real (heavier_end es e)" by simp_all
  then show eq: "normalizedWeight (nodeWeights es) e
      = Num (real (weight e) / real (heavier_end es e) * 100)"
    by (simp add: normalizedWeight_cases[OF assms(1)])
  have pct: "0 < q * 100 \<and> q * 100 \<le> 100" if "0 < q" "q \<le> 1" for q :: real
    using that by simp
  from h assms(2) have "0 < real (weight e) / real (heavier_end es e)"
    and "real (weight e) / real (heavier_end es e) \<le> 1"
    by simp_all
  then show "in_percent_range (normalizedWeight (nodeWeights es) e)"
    unfolding eq in_percent_range.simps by (rule pct)
qed

lemma scale_le_100: "q \<le> 1 \<Longrightarrow> q * 100 \<le> (100::real)"
  by simp

lemma scale_ge_0: "0 \<le> q \<Longrightarrow> 0 \<le> q * (100::real)"
  by simp

lemma normalizedWeight_le_100:
  assumes "e \<in> set es" "100 < t"
  shows "\<not> js_ge (normalizedWeight (nodeWeights es) e) t"
proof (cases "heavier_end es e = 0")
  case True
  then show ?thesis by (simp add: normalizedWeight_cases[OF assms(1)])
next
  case False
  with normalizedWeight_member(2)[OF assms(1)]
  have "real (weight e) / real (heavier_end es e) \<le> 1" by simp
  then have "real (weight e) / real (heavier_end es e) * 100 \<le> 100" by (rule scale_le_100)
  with assms(2) have "\<not> t \<le> real (weight e) / real (heavier_end es e) * 100" by linarith
  moreover from False have "normalizedWeight (nodeWeights es) e
      = Num (real (weight e) / real (heavier_end es e) * 100)"
    by (simp only: normalizedWeight_cases[OF assms(1)] if_False)
  ultimately show ?thesis by (simp only: js_ge.simps not_False_eq_True)
qed

lemma normalizedWeight_ge_0:
  assumes "e \<in> set es"
  shows "js_ge (normalizedWeight (nodeWeights es) e) 0 = (0 < heavier_end es e)"
proof (cases "heavier_end es e = 0")
  case True
  then show ?thesis by (simp add: normalizedWeight_cases[OF assms])
next
  case False
  have "0 \<le> real (weight e) / real (heavier_end es e)" by simp
  then have "0 \<le> real (weight e) / real (heavier_end es e) * 100" by (rule scale_ge_0)
  moreover from False have "normalizedWeight (nodeWeights es) e
      = Num (real (weight e) / real (heavier_end es e) * 100)"
    by (simp only: normalizedWeight_cases[OF assms] if_False)
  ultimately show ?thesis using False by (simp only: js_ge.simps) simp
qed

lemma incident_touching:
  assumes "\<forall>e\<in>set es. tag_a e \<noteq> tag_b e"
  shows "incident_weight es t = touching_weight es t"
  using assms by (induction es) (auto simp add: incident_weight_def touching_weight_def)

lemma filter_normalizedEdges:
  "filter (\<lambda>(e, n). js_ge n t) (normalizedEdges es)
     = map (\<lambda>e. (e, normalizedWeight (nodeWeights es) e)) (kept_edges es t)"
  unfolding normalizedEdges_def kept_edges_def by (simp add: filter_map comp_def)

lemma set_fold_Set_add:
  "set (fold (\<lambda>e s. Set_add (tag_b e) (Set_add (tag_a e) s)) xs s0)
     = set s0 \<union> tag_a ` set xs \<union> tag_b ` set xs"
  by (induction xs arbitrary: s0) (auto simp add: Set_add_def)

lemma distinct_fold_Set_add:
  "distinct s0 \<Longrightarrow> distinct (fold (\<lambda>e s. Set_add (tag_b e) (Set_add (tag_a e) s)) xs s0)"
  by (induction xs arbitrary: s0) (auto simp add: Set_add_def)

lemma view_links_renderTagNetwork:
  "view_links (renderTagNetwork es t) =
     map (\<lambda>e. \<lparr>link_source = tag_a e, link_target = tag_b e,
               link_weight = normalizedWeight (nodeWeights es) e\<rparr>) (kept_edges es t)"
proof (cases "es = []")
  case True
  then show ?thesis by (simp add: renderTagNetwork_def view_links_def kept_edges_def)
next
  case False
  show ?thesis
  proof (cases "kept_edges es t = []")
    case True
    with False show ?thesis
      by (simp add: renderTagNetwork_def view_links_def filter_normalizedEdges)
  next
    case kept: False
    with False show ?thesis
      by (simp add: renderTagNetwork_def view_links_def filter_normalizedEdges Let_def comp_def)
  qed
qed

lemma view_nodes_renderTagNetwork:
  "map node_id (view_nodes (renderTagNetwork es t)) =
     fold (\<lambda>e s. Set_add (tag_b e) (Set_add (tag_a e) s)) (kept_edges es t) []"
proof (cases "es = []")
  case True
  then show ?thesis by (simp add: renderTagNetwork_def view_nodes_def kept_edges_def)
next
  case False
  show ?thesis
  proof (cases "kept_edges es t = []")
    case True
    with False show ?thesis
      by (simp add: renderTagNetwork_def view_nodes_def filter_normalizedEdges)
  next
    case kept: False
    have "fold (\<lambda>(e, n) s. Set_add (tag_b e) (Set_add (tag_a e) s))
            (map (\<lambda>e. (e, normalizedWeight (nodeWeights es) e)) (kept_edges es t)) []
        = fold (\<lambda>e s. Set_add (tag_b e) (Set_add (tag_a e) s)) (kept_edges es t) []"
      by (simp add: fold_map comp_def)
    with False kept show ?thesis
      by (simp add: renderTagNetwork_def view_nodes_def filter_normalizedEdges Let_def comp_def)
  qed
qed

lemma renderTagNetwork_message:
  "kept_edges es t = [] \<Longrightarrow>
     renderTagNetwork es t = (if es = [] then No_edges else No_edges_above_threshold)"
  by (simp add: renderTagNetwork_def filter_normalizedEdges)

lemma kept_edges_zero: "kept_edges es 0 = filter (\<lambda>e. 0 < heavier_end es e) es"
  unfolding kept_edges_def by (rule filter_cong[OF refl]) (simp add: normalizedWeight_ge_0)

lemma kept_edges_above_100: "100 < t \<Longrightarrow> kept_edges es t = []"
  unfolding kept_edges_def by (simp add: filter_empty_conv normalizedWeight_le_100)

text \<open>
  C4, as stated, fails for an edge of weight 0, which the data model admits: its normalized
  weight is 0 when one of its tags has another edge of positive weight, and \<open>NaN\<close> when
  both tags have node weight 0.
\<close>

theorem zero_weight_counterexample:
  "\<not> in_percent_range (normalizedWeight (nodeWeights example_edges)
       \<lparr>tag_a = ''meta'', tag_b = ''emotion:joy'', weight = 0\<rparr>) \<and>
   map snd (normalizedEdges example_edges) = [Num 75, Num 25, Num 0] \<and>
   normalizedEdges [\<lparr>tag_a = ''meta'', tag_b = ''emotion:joy'', weight = 0\<rparr>]
     = [(\<lparr>tag_a = ''meta'', tag_b = ''emotion:joy'', weight = 0\<rparr>, NaN)]"
  by (simp add: normalizedEdges_def normalizedWeight_def nodeWeights_def add_count_def
      js_divide_def example_edges_def)

text \<open>
  C4, amended to the edges of positive weight. The normalized weight of such an edge is
  its weight over the larger of the node weights of its two tags, times 100, and lies in
  \<open>(0, 100]\<close>; the node weight of a tag adds the weight of an edge once for each end at the
  tag, which is the sum over the edges that touch the tag when no edge joins a tag to
  itself. The drawn links are the edges whose normalized weight reaches the threshold. At
  threshold 0 these are the edges with a tag of positive node weight, so all edges when
  all weights are positive; above 100 there are none and the message is shown. The drawn
  nodes are the tags of the drawn links, each once.
\<close>

theorem tag_network_normalization:
  "(\<forall>e\<in>set es. 0 < weight e \<longrightarrow>
      normalizedWeight (nodeWeights es) e
        = Num (real (weight e) / real (heavier_end es e) * 100) \<and>
      in_percent_range (normalizedWeight (nodeWeights es) e)) \<and>
   ((\<forall>e\<in>set es. tag_a e \<noteq> tag_b e) \<longrightarrow> incident_weight es t = touching_weight es t) \<and>
   view_links (renderTagNetwork es th) =
     map (\<lambda>e. \<lparr>link_source = tag_a e, link_target = tag_b e,
               link_weight = normalizedWeight (nodeWeights es) e\<rparr>) (kept_edges es th) \<and>
   kept_edges es 0 = filter (\<lambda>e. 0 < heavier_end es e) es \<and>
   ((\<forall>e\<in>set es. 0 < weight e) \<longrightarrow> kept_edges es 0 = es) \<and>
   (100 < th \<longrightarrow> kept_edges es th = [] \<and>
      renderTagNetwork es th = (if es = [] then No_edges else No_edges_above_threshold)) \<and>
   set (map node_id (view_nodes (renderTagNetwork es th)))
     = tag_a ` set (kept_edges es th) \<union> tag_b ` set (kept_edges es th) \<and>
   distinct (map node_id (view_nodes (renderTagNetwork es th)))"
proof -
  have pos: "\<forall>e\<in>set es. 0 < weight e \<longrightarrow>
      normalizedWeight (nodeWeights es) e
        = Num (real (weight e) / real (heavier_end es e) * 100) \<and>
      in_percent_range (normalizedWeight (nodeWeights es) e)"
    using normalizedWeight_positive by blast
  have touch: "(\<forall>e\<in>set es. tag_a e \<noteq> tag_b e) \<longrightarrow> incident_weight es t = touching_weight es t"
    using incident_touching by blast
  have all: "(\<forall>e\<in>set es. 0 < weight e) \<longrightarrow> kept_edges es 0 = es"
  proof
    assume a: "\<forall>e\<in>set es. 0 < weight e"
    have "0 < heavier_end es e" if "e \<in> set es" for e
      using a that normalizedWeight_member(2)[OF that] by fastforce
    then show "kept_edges es 0 = es" unfolding kept_edges_zero by simp
  qed
  have above: "100 < th \<longrightarrow> kept_edges es th = [] \<and>
      renderTagNetwork es th = (if es = [] then No_edges else No_edges_above_threshold)"
    using kept_edges_above_100[of th es] renderTagNetwork_message[of es th] by blast
  have nodes: "set (map node_id (view_nodes (renderTagNetwork es th)))
     = tag_a ` set (kept_edges es th) \<union> tag_b ` set (kept_edges es th)"
    unfolding view_nodes_renderTagNetwork set_fold_Set_add by simp
  have dist: "distinct (map node_id (view_nodes (renderTagNetwork es th)))"
    unfolding view_nodes_renderTagNetwork by (rule distinct_fold_Set_add) simp
  from pos touch view_links_renderTagNetwork[of es th] kept_edges_zero[of es] all above nodes dist
  show ?thesis by blast
qed

text \<open>An instance: three edges of normalized weight 75, 25 and 0 at the thresholds 10 and 101.\<close>

theorem tag_network_normalization_witness:
  "view_links (renderTagNetwork example_edges 10) =
     [\<lparr>link_source = ''style:dry'', link_target = ''intent:ask'', link_weight = Num 75\<rparr>,
      \<lparr>link_source = ''style:dry'', link_target = ''emotion:joy'', link_weight = Num 25\<rparr>] \<and>
   map node_id (view_nodes (renderTagNetwork example_edges 10))
     = [''style:dry'', ''intent:ask'', ''emotion:joy''] \<and>
   renderTagNetwork example_edges 101 = No_edges_above_threshold \<and>
   kept_edges example_edges 0 = example_edges"
proof -
  have w: "map (\<lambda>e. normalizedWeight (nodeWeights example_edges) e) example_edges
      = [Num 75, Num 25, Num 0]"
    by (simp add: normalizedWeight_def nodeWeights_def add_count_def js_divide_def
        example_edges_def)
  then have k10: "kept_edges example_edges 10 = take 2 example_edges"
    and k0: "kept_edges example_edges 0 = example_edges"
    by (simp_all add: kept_edges_def example_edges_def)
  have "(100::real) < 101" by simp
  with tag_network_normalization[of example_edges "[]" 101]
  have msg: "renderTagNetwork example_edges 101 = No_edges_above_threshold"
    by (simp add: example_edges_def)
  from tag_network_normalization[of example_edges "[]" 10] w
  have links: "view_links (renderTagNetwork example_edges 10) =
     [\<lparr>link_source = ''style:dry'', link_target = ''intent:ask'', link_weight = Num 75\<rparr>,
      \<lparr>link_source = ''style:dry'', link_target = ''emotion:joy'', link_weight = Num 25\<rparr>]"
    unfolding k10 by (simp add: example_edges_def)
  have nodes: "map node_id (view_nodes (renderTagNetwork example_edges 10))
     = [''style:dry'', ''intent:ask'', ''emotion:joy'']"
    unfolding view_nodes_renderTagNetwork k10 by (simp add: example_edges_def Set_add_def)
  from links nodes msg k0 show ?thesis by blast
qed

section \<open>Queries and the corpus array\<close>

lemma unchanged_refl: "unchanged h h"
  by (simp add: unchanged_def)

lemma unchanged_trans: "unchanged h h' \<Longrightarrow> unchanged h' h'' \<Longrightarrow> unchanged h h''"
  by (auto simp add: unchanged_def)

lemma alloc_props:
  "fst (alloc h xs) = next_addr h"
  "next_addr (snd (alloc h xs)) = Suc (next_addr h)"
  "read_array (snd (alloc h xs)) (fst (alloc h xs)) = xs"
  "unchanged h (snd (alloc h xs))"
  by (simp_all add: alloc_def read_array_def unchanged_def)

lemma sort_in_place_props:
  "fst (Array_sort_in_place cmp ah) = fst ah"
  "next_addr (snd (Array_sort_in_place cmp ah)) = next_addr (snd ah)"
  "read_array (snd (Array_sort_in_place cmp ah)) (fst ah) = Array_sort cmp (read_array (snd ah) (fst ah))"
  "a \<noteq> fst ah \<Longrightarrow> arrays (snd (Array_sort_in_place cmp ah)) a = arrays (snd ah) a"
  by (simp_all add: Array_sort_in_place_def read_array_def)

lemma sorted_copy:
  fixes cmp ah
  defines "r \<equiv> Array_sort_in_place cmp (Array_spread ah)"
  shows "unchanged (snd ah) (snd r)"
    and "fst r = next_addr (snd ah)"
    and "next_addr (snd r) = Suc (next_addr (snd ah))"
    and "read_array (snd r) (fst r) = Array_sort cmp (read_array (snd ah) (fst ah))"
proof -
  let ?c = "Array_spread ah"
  have c: "fst ?c = next_addr (snd ah)" "next_addr (snd ?c) = Suc (next_addr (snd ah))"
    "read_array (snd ?c) (fst ?c) = read_array (snd ah) (fst ah)"
    unfolding Array_spread_def by (rule alloc_props)+
  have cu: "unchanged (snd ah) (snd ?c)"
    unfolding Array_spread_def by (rule alloc_props)
  show 2: "fst r = next_addr (snd ah)" unfolding r_def sort_in_place_props c ..
  show 3: "next_addr (snd r) = Suc (next_addr (snd ah))" unfolding r_def sort_in_place_props c ..
  show "read_array (snd r) (fst r) = Array_sort cmp (read_array (snd ah) (fst ah))"
    unfolding 2 unfolding r_def using sort_in_place_props(3)[of cmp ?c] c by simp
  show "unchanged (snd ah) (snd r)"
    unfolding unchanged_def
  proof (intro conjI allI impI)
    show "next_addr (snd ah) \<le> next_addr (snd r)" unfolding 3 by simp
  next
    fix a assume a: "a < next_addr (snd ah)"
    then have "a \<noteq> fst ?c" unfolding c by simp
    then have "arrays (snd r) a = arrays (snd ?c) a"
      unfolding r_def by (rule sort_in_place_props(4))
    also from cu a have "\<dots> = arrays (snd ah) a" by (simp add: unchanged_def)
    finally show "arrays (snd r) a = arrays (snd ah) a" .
  qed
qed

lemma slice0_props:
  "fst (Array_slice0 n ah) = next_addr (snd ah)"
  "next_addr (snd (Array_slice0 n ah)) = Suc (next_addr (snd ah))"
  "read_array (snd (Array_slice0 n ah)) (fst (Array_slice0 n ah)) = take n (read_array (snd ah) (fst ah))"
  "unchanged (snd ah) (snd (Array_slice0 n ah))"
  unfolding Array_slice0_def by (rule alloc_props)+

lemma filter_props:
  "fst (Array_filter P ah) = next_addr (snd ah)"
  "next_addr (snd (Array_filter P ah)) = Suc (next_addr (snd ah))"
  "read_array (snd (Array_filter P ah)) (fst (Array_filter P ah)) = filter P (read_array (snd ah) (fst ah))"
  "unchanged (snd ah) (snd (Array_filter P ah))"
  unfolding Array_filter_def by (rule alloc_props)+

lemma read_unchanged: "unchanged h h' \<Longrightarrow> a < next_addr h \<Longrightarrow> read_array h' a = read_array h a"
  by (simp add: unchanged_def read_array_def)

lemma sortPosts_heap_props:
  "unchanged h (snd (sortPosts_heap lc h a field asc))"
  "fst (sortPosts_heap lc h a field asc) = next_addr h"
  "read_array (snd (sortPosts_heap lc h a field asc)) (fst (sortPosts_heap lc h a field asc))
     = sortPosts lc (read_array h a) field asc"
  unfolding sortPosts_heap_def Let_def sortPosts_def
  using sorted_copy[where ah = "(a, h)" and cmp = "sortPosts_cmp lc field asc"] by simp_all

lemma findOutliers_heap_props:
  assumes "a < next_addr h"
  shows "unchanged h (snd (findOutliers_heap h a))"
    and "fst (findOutliers_heap h a) = findOutliers (read_array h a)"
proof -
  define byUp where "byUp = Array_sort_in_place (\<lambda>a b. upvotes b - upvotes a) (Array_spread (a, h))"
  define top1 where "top1 = Array_slice0 10 byUp"
  define byLen where "byLen = Array_sort_in_place (\<lambda>a b. content_len b - content_len a)
                   (Array_spread (a, snd top1))"
  define top2 where "top2 = Array_slice0 5 byLen"
  have u1: "unchanged h (snd byUp)"
    and r1: "read_array (snd byUp) (fst byUp) = Array_sort (\<lambda>a b. upvotes b - upvotes a) (read_array h a)"
    unfolding byUp_def using sorted_copy[where ah = "(a, h)" and cmp = "\<lambda>a b. upvotes b - upvotes a"] by simp_all
  have u2: "unchanged (snd byUp) (snd top1)"
    and r2: "read_array (snd top1) (fst top1) = take 10 (read_array (snd byUp) (fst byUp))"
    unfolding top1_def by (rule slice0_props)+
  from u1 u2 have u12: "unchanged h (snd top1)" by (rule unchanged_trans)
  from u12 assms have ra: "read_array (snd top1) a = read_array h a" by (rule read_unchanged)
  have u3: "unchanged (snd top1) (snd byLen)"
    and r3: "read_array (snd byLen) (fst byLen)
        = Array_sort (\<lambda>a b. content_len b - content_len a) (read_array h a)"
    unfolding byLen_def
    using sorted_copy[where ah = "(a, snd top1)" and cmp = "\<lambda>a b. content_len b - content_len a"] ra by simp_all
  have u4: "unchanged (snd byLen) (snd top2)"
    and r4: "read_array (snd top2) (fst top2) = take 5 (read_array (snd byLen) (fst byLen))"
    unfolding top2_def by (rule slice0_props)+
  have res: "findOutliers_heap h a =
      (map (\<lambda>p. \<lparr>outlier_type = ''High Upvotes'', outlier_post = p, outlier_value = upvotes p\<rparr>)
                 (filter (\<lambda>p. upvotes p > 10) (read_array (snd top1) (fst top1)))
       @ map (\<lambda>p. \<lparr>outlier_type = ''Long Content'', outlier_post = p,
                                outlier_value = content_len p\<rparr>)
                       (filter (\<lambda>p. content_len p > 5000) (read_array (snd top2) (fst top2))),
       snd top2)"
    unfolding findOutliers_heap_def Let_def top2_def byLen_def top1_def byUp_def ..
  show "unchanged h (snd (findOutliers_heap h a))"
    unfolding res snd_conv using u12 u3 u4 unchanged_trans by blast
  show "fst (findOutliers_heap h a) = findOutliers (read_array h a)"
    unfolding res fst_conv r2 r1 r4 r3 findOutliers_def Let_def ..
qed

lemma filter_inv_step:
  assumes "filter_inv h0 c0 Q act rh"
  shows "filter_inv h0 c0 (\<lambda>p. Q p \<and> (\<not> c \<or> P p)) (act \<or> c)
           (if c then Array_filter P rh else rh)"
proof (cases c)
  case False
  with assms show ?thesis by (simp add: filter_inv_def)
next
  case True
  from assms have u: "unchanged h0 (snd rh)" and lt: "fst rh < next_addr (snd rh)"
    and rd: "read_array (snd rh) (fst rh) = filter Q (read_array h0 c0)"
    by (simp_all add: filter_inv_def)
  let ?r = "Array_filter P rh"
  from u filter_props(4)[of rh P] have "unchanged h0 (snd ?r)" by (rule unchanged_trans)
  moreover have "fst ?r < next_addr (snd ?r)" by (simp add: filter_props)
  moreover have "read_array (snd ?r) (fst ?r) = filter (\<lambda>p. Q p \<and> P p) (read_array h0 c0)"
    unfolding filter_props(3) rd by simp
  moreover from u have "next_addr h0 \<le> fst ?r"
    by (simp add: filter_props unchanged_def)
  ultimately show ?thesis using True by (simp add: filter_inv_def)
qed

lemma filterPosts_heap_inv:
  assumes "c0 < next_addr h"
  shows "filter_inv h c0 (index_satisfies ds f) (active f) (filterPosts_heap h c0 ds f)"
proof -
  let ?P1 = "\<lambda>p. submolt_name p \<in> set (submolts f)"
  let ?P2 = "\<lambda>p. author_name p \<in> set (authors f)"
  let ?P3 = "\<lambda>p. list_ex (\<lambda>t. tag t \<in> set (tags f)) (get_or_empty (tagsByPostId ds) (post_id p))"
  let ?P4 = "\<lambda>p. list_ex (\<lambda>n. class_note n \<in> set (classNotes f))
                    (get_or_empty (classNotesByPostId ds) (post_id p))"
  let ?P5 = "\<lambda>p. upvotes p \<ge> minUpvotes (engagement f)"
  let ?P6 = "\<lambda>p. comment_count p \<ge> minComments (engagement f)"
  let ?P7 = "search_match (toLowerCase (search f))"
  let ?P8 = "\<lambda>p. post_id p \<in> set (the (postIds f))"
  let ?c8 = "postIds f \<noteq> None \<and> postIds f \<noteq> Some []"
  define r1 where "r1 = (if length (submolts f) > 0 then Array_filter ?P1 (c0, h) else (c0, h))"
  define r2 where "r2 = (if length (authors f) > 0 then Array_filter ?P2 r1 else r1)"
  define r3 where "r3 = (if length (tags f) > 0 then Array_filter ?P3 r2 else r2)"
  define r4 where "r4 = (if length (classNotes f) > 0 then Array_filter ?P4 r3 else r3)"
  define r5 where "r5 = (if minUpvotes (engagement f) > 0 then Array_filter ?P5 r4 else r4)"
  define r6 where "r6 = (if minComments (engagement f) > 0 then Array_filter ?P6 r5 else r5)"
  define r7 where "r7 = (if search f \<noteq> [] then Array_filter ?P7 r6 else r6)"
  define r8 where "r8 = (if ?c8 then Array_filter ?P8 r7 else r7)"
  have ids: "(case postIds f of None \<Rightarrow> r7
              | Some ids \<Rightarrow> if length ids > 0 then Array_filter (\<lambda>p. post_id p \<in> set ids) r7 else r7)
           = r8"
    unfolding r8_def by (cases "postIds f") auto
  have res: "filterPosts_heap h c0 ds f = r8"
    unfolding filterPosts_heap_def Let_def
    unfolding r1_def[symmetric] r2_def[symmetric] r3_def[symmetric] r4_def[symmetric]
      r5_def[symmetric] r6_def[symmetric] r7_def[symmetric] ids ..
  have i0: "filter_inv h c0 (\<lambda>p. True) False (c0, h)"
    using assms by (simp add: filter_inv_def unchanged_refl)
  note i1 = filter_inv_step[OF i0, of "length (submolts f) > 0" ?P1, folded r1_def]
  note i2 = filter_inv_step[OF i1, of "length (authors f) > 0" ?P2, folded r2_def]
  note i3 = filter_inv_step[OF i2, of "length (tags f) > 0" ?P3, folded r3_def]
  note i4 = filter_inv_step[OF i3, of "length (classNotes f) > 0" ?P4, folded r4_def]
  note i5 = filter_inv_step[OF i4, of "minUpvotes (engagement f) > 0" ?P5, folded r5_def]
  note i6 = filter_inv_step[OF i5, of "minComments (engagement f) > 0" ?P6, folded r6_def]
  note i7 = filter_inv_step[OF i6, of "search f \<noteq> []" ?P7, folded r7_def]
  note i8 = filter_inv_step[OF i7, of ?c8 ?P8, folded r8_def]
  have le: "(\<not> 0 < a) = (a \<le> 0)" for a :: int by auto
  have Q: "(\<lambda>p. (((((((True \<and> (\<not> length (submolts f) > 0 \<or> ?P1 p)) \<and>
            (\<not> length (authors f) > 0 \<or> ?P2 p)) \<and> (\<not> length (tags f) > 0 \<or> ?P3 p)) \<and>
            (\<not> length (classNotes f) > 0 \<or> ?P4 p)) \<and>
            (\<not> minUpvotes (engagement f) > 0 \<or> ?P5 p)) \<and>
            (\<not> minComments (engagement f) > 0 \<or> ?P6 p)) \<and>
            (\<not> search f \<noteq> [] \<or> ?P7 p)) \<and> (\<not> ?c8 \<or> ?P8 p))
        = index_satisfies ds f"
    unfolding index_satisfies_def
    by (intro ext) (simp only: length_greater_0_conv le not_not de_Morgan_conj simp_thms conj_assoc disj_assoc)
  have A: "((((((((False \<or> length (submolts f) > 0) \<or> length (authors f) > 0) \<or>
            length (tags f) > 0) \<or> length (classNotes f) > 0) \<or>
            minUpvotes (engagement f) > 0) \<or> minComments (engagement f) > 0) \<or>
            search f \<noteq> []) \<or> ?c8) = active f"
    unfolding active_def by (simp only: length_greater_0_conv simp_thms disj_assoc)
  from i8 show ?thesis unfolding res Q A .
qed

text \<open>
  C10, as stated, fails in one part: filtering does not always return a new structure.
  With no active predicate \<open>filterPosts\<close> returns \<open>this.posts\<close>, the corpus array itself,
  here the array at address 0.
\<close>

theorem filter_alias_counterexample:
  "arrays corpus_heap 0 = Some example_posts \<and>
   fst (filterPosts_heap corpus_heap 0 (loadAll example_posts [] [] []) no_filters) = 0 \<and>
   \<not> next_addr corpus_heap
       \<le> fst (filterPosts_heap corpus_heap 0 (loadAll example_posts [] [] []) no_filters)"
  by (simp add: filterPosts_heap_def corpus_heap_def no_filters_def)

text \<open>
  C10, amended. No query changes an array that exists when it is called, its input and
  the corpus among them: \<open>sortPosts\<close> sorts a new copy and returns it, \<open>findOutliers\<close> sorts
  new copies and returns new records, and \<open>filterPosts\<close> returns a new array when at least
  one predicate is active and the corpus array itself, in the unchanged store, when none
  is. The results are those of the functions on the content of the input array.
\<close>

theorem queries_leave_corpus:
  assumes "a < next_addr h"
  shows
    "unchanged h (snd (sortPosts_heap lc h a field asc)) \<and>
     next_addr h \<le> fst (sortPosts_heap lc h a field asc) \<and>
     read_array (snd (sortPosts_heap lc h a field asc)) (fst (sortPosts_heap lc h a field asc))
       = sortPosts lc (read_array h a) field asc \<and>
     unchanged h (snd (findOutliers_heap h a)) \<and>
     fst (findOutliers_heap h a) = findOutliers (read_array h a) \<and>
     unchanged h (snd (filterPosts_heap h a ds f)) \<and>
     read_array (snd (filterPosts_heap h a ds f)) (fst (filterPosts_heap h a ds f))
       = filterPosts (ds\<lparr>posts := read_array h a\<rparr>) f \<and>
     (active f \<longrightarrow> next_addr h \<le> fst (filterPosts_heap h a ds f)) \<and>
     (\<not> active f \<longrightarrow> filterPosts_heap h a ds f = (a, h)) \<and>
     (\<forall>h'. unchanged h h' \<longrightarrow> read_array h' a = read_array h a)"
proof -
  note s = sortPosts_heap_props[where h = h and lc = lc and a = a and field = field and asc = asc]
  note o = findOutliers_heap_props[OF assms]
  from filterPosts_heap_inv[OF assms, where ds = ds and f = f]
  have fu: "unchanged h (snd (filterPosts_heap h a ds f))"
    and fr: "read_array (snd (filterPosts_heap h a ds f)) (fst (filterPosts_heap h a ds f))
       = filter (index_satisfies ds f) (read_array h a)"
    and fa: "if active f then next_addr h \<le> fst (filterPosts_heap h a ds f)
             else filterPosts_heap h a ds f = (a, h)"
    unfolding filter_inv_def by blast+
  have "filter (index_satisfies ds f) (read_array h a)
      = filterPosts (ds\<lparr>posts := read_array h a\<rparr>) f"
    by (simp add: filterPosts_index index_satisfies_posts_update)
  with fr have fr': "read_array (snd (filterPosts_heap h a ds f)) (fst (filterPosts_heap h a ds f))
       = filterPosts (ds\<lparr>posts := read_array h a\<rparr>) f" by simp
  from fa have fa1: "active f \<longrightarrow> next_addr h \<le> fst (filterPosts_heap h a ds f)"
    and fa2: "\<not> active f \<longrightarrow> filterPosts_heap h a ds f = (a, h)"
    by (simp_all split: if_splits)
  have rd: "\<forall>h'. unchanged h h' \<longrightarrow> read_array h' a = read_array h a"
    using read_unchanged assms by blast
  from s(1) s(2) s(3) o fu fr' fa1 fa2 rd show ?thesis by simp
qed

text \<open>
  An instance: the example corpus at address 0, sorted by descending upvotes, scanned for
  outliers and filtered by author.
\<close>

theorem queries_leave_corpus_witness:
  "0 < next_addr corpus_heap \<and>
   arrays (snd (sortPosts_heap (\<lambda>a b. 0) corpus_heap 0 (Numeric upvotes) False)) 0
     = Some example_posts \<and>
   arrays (snd (sortPosts_heap (\<lambda>a b. 0) corpus_heap 0 (Numeric upvotes) False)) 1
     = Some [mk_post ''C'' ''C'' ''m1'' 20 3, mk_post ''B'' ''B'' ''m1'' 12 8,
             mk_post ''A'' ''A'' ''m1'' 5 5, mk_post ''D'' ''D'' ''m1'' 3 0] \<and>
   fst (sortPosts_heap (\<lambda>a b. 0) corpus_heap 0 (Numeric upvotes) False) = 1 \<and>
   arrays (snd (findOutliers_heap corpus_heap 0)) 0 = Some example_posts \<and>
   map outlier_value (fst (findOutliers_heap corpus_heap 0)) = [20, 12] \<and>
   fst (filterPosts_heap corpus_heap 0 (loadAll example_posts [] [] [])
          (no_filters\<lparr>authors := [''B'']\<rparr>)) = 1 \<and>
   arrays (snd (filterPosts_heap corpus_heap 0 (loadAll example_posts [] [] [])
          (no_filters\<lparr>authors := [''B'']\<rparr>))) 0 = Some example_posts"
proof -
  have lt: "0 < next_addr corpus_heap" by (simp add: corpus_heap_def)
  note t = queries_leave_corpus[OF lt, where lc = "\<lambda>a b. 0" and field = "Numeric upvotes"
      and asc = False and ds = "loadAll example_posts [] [] []"
      and f = "no_filters\<lparr>authors := [''B'']\<rparr>"]
  have c0: "arrays corpus_heap 0 = Some example_posts" by (simp add: corpus_heap_def)
  from t lt have 1: "arrays (snd (sortPosts_heap (\<lambda>a b. 0) corpus_heap 0 (Numeric upvotes) False)) 0
     = Some example_posts"
    and 2: "arrays (snd (findOutliers_heap corpus_heap 0)) 0 = Some example_posts"
    and 3: "arrays (snd (filterPosts_heap corpus_heap 0 (loadAll example_posts [] [] [])
          (no_filters\<lparr>authors := [''B'']\<rparr>))) 0 = Some example_posts"
    unfolding unchanged_def c0[symmetric] by blast+
  have 4: "sortPosts_heap (\<lambda>a b. 0) corpus_heap 0 (Numeric upvotes) False
      = (1, \<lparr>arrays = [0 \<mapsto> example_posts, 1 \<mapsto>
            [mk_post ''C'' ''C'' ''m1'' 20 3, mk_post ''B'' ''B'' ''m1'' 12 8,
             mk_post ''A'' ''A'' ''m1'' 5 5, mk_post ''D'' ''D'' ''m1'' 3 0]], next_addr = 2\<rparr>)"
    by (simp add: sortPosts_heap_def Array_spread_def Array_sort_in_place_def alloc_def
        read_array_def corpus_heap_def Array_sort_def sortPosts_cmp_def example_posts_def
        mk_post_def)
  have 5: "map outlier_value (fst (findOutliers_heap corpus_heap 0)) = [20, 12]"
    unfolding t[THEN conjunct2, THEN conjunct2, THEN conjunct2, THEN conjunct2, THEN conjunct1]
    by (simp add: findOutliers_def read_array_def corpus_heap_def Array_sort_def
        example_posts_def mk_post_def)
  have 6: "fst (filterPosts_heap corpus_heap 0 (loadAll example_posts [] [] [])
          (no_filters\<lparr>authors := [''B'']\<rparr>)) = 1"
    by (simp add: filterPosts_heap_def Array_filter_def alloc_def corpus_heap_def no_filters_def)
  from lt 1 2 3 4 5 6 show ?thesis by simp
qed

end
